theory Spec2Isabelle
  imports Main
begin

section \<open>Python values the program works on\<close>

text \<open>
  Strings are byte strings (ASCII). The program hands a git-dir around either as a
  \<open>str\<close> (what \<open>git rev-parse\<close> printed, or a \<open>--lookup\<close> argument) or as a
  \<open>pathlib.Path\<close>; both kinds are kept apart, because Python's \<open>==\<close> never
  identifies a \<open>str\<close> with a \<open>Path\<close>.
\<close>

definition startswith :: "string \<Rightarrow> string \<Rightarrow> bool" where
  "startswith s p = (take (length p) s = p)"

definition endswith :: "string \<Rightarrow> string \<Rightarrow> bool" where
  "endswith s p = (length p \<le> length s \<and> drop (length s - length p) s = p)"

definition is_space :: "char \<Rightarrow> bool" where
  "is_space c = (c \<in> {CHR '' '', CHR 0x09, CHR 0x0A, CHR 0x0B, CHR 0x0C, CHR 0x0D,
                       CHR 0x1C, CHR 0x1D, CHR 0x1E, CHR 0x1F})"

definition is_linebreak :: "char \<Rightarrow> bool" where
  "is_linebreak c = (c \<in> {CHR 0x0A, CHR 0x0B, CHR 0x0C, CHR 0x0D, CHR 0x1C, CHR 0x1D, CHR 0x1E})"

definition strip :: "string \<Rightarrow> string" where
  "strip s = rev (dropWhile is_space (rev (dropWhile is_space s)))"

text \<open>\<open>str.splitlines()\<close>: no empty last line after a final line break.\<close>

fun splitlines :: "string \<Rightarrow> string list" where
  "splitlines [] = []"
| "splitlines [c] = (if is_linebreak c then [[]] else [[c]])"
| "splitlines (c # d # cs) =
     (if c = CHR 0x0D \<and> d = CHR 0x0A then [] # splitlines cs
      else if is_linebreak c then [] # splitlines (d # cs)
      else (case splitlines (d # cs) of [] \<Rightarrow> [[c]] | l # ls \<Rightarrow> (c # l) # ls))"

text \<open>\<open>s.split(maxsplit=n)\<close>: fields separated by runs of white space; after \<open>n\<close>
  splits the rest of the string is the last field, its leading white space removed.\<close>

fun split_ws :: "nat \<Rightarrow> string \<Rightarrow> string list" where
  "split_ws n s =
     (let s1 = dropWhile is_space s in
      if s1 = [] then []
      else (case n of
              0 \<Rightarrow> [s1]
            | Suc m \<Rightarrow> takeWhile (\<lambda>c. \<not> is_space c) s1
                       # split_ws m (dropWhile (\<lambda>c. \<not> is_space c) s1)))"

text \<open>\<open>s.split(c, maxsplit=n)\<close> for a one-character separator.\<close>

fun split_on :: "char \<Rightarrow> nat \<Rightarrow> string \<Rightarrow> string list" where
  "split_on c 0 s = [s]"
| "split_on c (Suc n) s =
     (if c \<in> set s
      then takeWhile (\<lambda>x. x \<noteq> c) s # split_on c n (tl (dropWhile (\<lambda>x. x \<noteq> c) s))
      else [s])"

fun join :: "string \<Rightarrow> string list \<Rightarrow> string" where
  "join sep [] = []"
| "join sep [x] = x"
| "join sep (x # y # ys) = x @ sep @ join sep (y # ys)"

text \<open>\<open>str(n)\<close> for a counter that is never negative.\<close>

fun str_nat :: "nat \<Rightarrow> string" where
  "str_nat n = (if n < 10 then [char_of (48 + n)]
                else str_nat (n div 10) @ [char_of (48 + n mod 10)])"

text \<open>
  A \<open>pathlib.PurePosixPath\<close> is its root (\<open>''''\<close>, \<open>''/''\<close> or \<open>''//''\<close>) and its
  parts: the constructor drops empty components and \<open>.\<close>, and two paths are equal
  when root and parts are.
\<close>

datatype posix_path = PosixPath (root: string) (parts: "string list")

definition splitroot :: "string \<Rightarrow> string \<times> string" where
  "splitroot p =
     (if take 1 p \<noteq> ''/'' then ([], p)
      else if take 1 (drop 1 p) \<noteq> ''/'' \<or> take 1 (drop 2 p) = ''/'' then (''/'', drop 1 p)
      else (take 2 p, drop 2 p))"

definition parse_path :: "string \<Rightarrow> posix_path" where
  "parse_path s =
     (case splitroot s of (r, rel) \<Rightarrow>
        PosixPath r (filter (\<lambda>x. x \<noteq> [] \<and> x \<noteq> ''.'') (split_on CHR ''/'' (length rel) rel)))"

definition path_str :: "posix_path \<Rightarrow> string" where
  "path_str p = (let s = root p @ join ''/'' (parts p) in if s = [] then ''.'' else s)"

datatype pyval = PyStr string | PyPath posix_path

text \<open>\<open>str(x)\<close>, \<open>Path(x)\<close> and the truth value of \<open>x\<close> in \<open>if x:\<close>.\<close>

fun py_str :: "pyval \<Rightarrow> string" where
  "py_str (PyStr s) = s"
| "py_str (PyPath p) = path_str p"

fun Path :: "pyval \<Rightarrow> pyval" where
  "Path (PyStr s) = PyPath (parse_path s)"
| "Path (PyPath p) = PyPath p"

fun truthy :: "pyval \<Rightarrow> bool" where
  "truthy (PyStr s) = (s \<noteq> [])"
| "truthy (PyPath p) = True"

section \<open>Messages, exceptions, external commands\<close>

text \<open>
  Each constructor of \<open>message\<close> is one format string of the program, with the values
  it interpolates. The four printing functions are the first four events; the other
  events are the effects the program has on processes and files.
\<close>

datatype message =
    Command_failed int "string list"
  | Unsupported_format "string option"
  | Archive_failed int "string list"
  | Skipping_depth string string
  | Could_not_find string string string string string string
  | FYI_gitmodule "(string \<times> string) list"
  | Dry_run nat string
  | Launching nat string
  | Dry_run_done
  | Waiting_and_concatenating nat nat
  | Cleanup_exception string
  | Done_msg

datatype exc =
    RuntimeError message
  | AssertionError
  | IndexError
  | ValueError
  | OSError
  | FileNotFoundError
  | SystemExit int

text \<open>
  The git queries the program runs are read-only. \<open>run_cmd\<close> gives, for a command
  line, the exit status and the standard output of the process; \<open>is_dir\<close> answers
  \<open>Path.is_dir()\<close>. The model covers runs without \<open>--debug\<close> (\<open>DEBUG = False\<close>).
\<close>

record git_env =
  run_cmd :: "string list \<Rightarrow> int \<times> string"
  is_dir :: "posix_path \<Rightarrow> bool"

text \<open>\<open>git(*subcommand, pwd=..., gitdir=...)\<close>: the command line it builds.\<close>

definition git :: "pyval option \<Rightarrow> pyval option \<Rightarrow> string list \<Rightarrow> exc + string list" where
  "git pwd gitdir subcommand =
     (let cmd1 = [''git''] @ (case pwd of Some p \<Rightarrow> if truthy p then [''-C'', py_str p] else []
                                        | None \<Rightarrow> [])
      in case gitdir of
           None \<Rightarrow> Inr (cmd1 @ subcommand)
         | Some g \<Rightarrow>
             if truthy g
             then (if (case pwd of Some p \<Rightarrow> truthy p | None \<Rightarrow> False) then Inl AssertionError
                   else Inr (cmd1 @ [''--git-dir'', py_str g] @ subcommand))
             else Inr (cmd1 @ subcommand))"

text \<open>\<open>run(..., ret=STDOUT)\<close>: a non-zero exit status is fatal.\<close>

definition run_stdout :: "git_env \<Rightarrow> string list \<Rightarrow> message + string" where
  "run_stdout env cmd =
     (case run_cmd env cmd of (rc, out) \<Rightarrow>
        if rc \<noteq> 0 then Inl (Command_failed rc cmd) else Inr out)"

definition is_valid_git_object :: "git_env \<Rightarrow> string \<Rightarrow> string \<Rightarrow> pyval \<Rightarrow> exc + bool" where
  "is_valid_git_object env obj typ gitdir =
     (case git None (Some gitdir) [''rev-parse'', ''-q'', ''--verify'', obj @ ''^{'' @ typ @ ''}''] of
        Inl e \<Rightarrow> Inl e
      | Inr cmd \<Rightarrow>
          (case run_cmd env cmd of (retcode, out) \<Rightarrow>
             if retcode \<noteq> 0 \<or> strip out = obj then Inr (retcode = 0) else Inl AssertionError))"

section \<open>GitDirCollection\<close>

text \<open>
  \<open>self.gitdirs\<close> is a \<open>dict\<close> from \<open>str(path_hint)\<close> to a list of git-dirs; a
  \<open>dict\<close> keeps its keys in the order of their first insertion, so it is an
  association list with distinct keys.
\<close>

type_synonym gitdir_collection = "(string \<times> pyval list) list"

fun dict_set :: "'k \<Rightarrow> 'v \<Rightarrow> ('k \<times> 'v) list \<Rightarrow> ('k \<times> 'v) list" where
  "dict_set k v [] = [(k, v)]"
| "dict_set k v (p # ps) = (if fst p = k then (k, v) # ps else p # dict_set k v ps)"

definition setdefault :: "'k \<Rightarrow> 'v \<Rightarrow> ('k \<times> 'v) list \<Rightarrow> ('k \<times> 'v) list" where
  "setdefault k d m = (case map_of m k of None \<Rightarrow> dict_set k d m | Some v \<Rightarrow> m)"

definition add :: "pyval \<Rightarrow> pyval \<Rightarrow> gitdir_collection \<Rightarrow> gitdir_collection" where
  "add path_hint gitdir gitdirs =
     (let gitdirs1 = setdefault (py_str path_hint) [] gitdirs;
          dirs = (case map_of gitdirs1 (py_str path_hint) of Some ds \<Rightarrow> ds | None \<Rightarrow> [])
      in if gitdir \<notin> set dirs
         then dict_set (py_str path_hint) (dirs @ [Path gitdir]) gitdirs1
         else gitdirs1)"

text \<open>The two loops of \<open>find\<close> (\<open>rv\<close> is its \<open>rev\<close>): the first valid git-dir of a list, or the
  exception of the check that raised one.\<close>

fun first_valid :: "git_env \<Rightarrow> string \<Rightarrow> pyval list \<Rightarrow> exc + pyval option" where
  "first_valid env rv [] = Inr None"
| "first_valid env rv (gitdir # rest) =
     (case is_valid_git_object env rv ''commit'' gitdir of
        Inl e \<Rightarrow> Inl e
      | Inr True \<Rightarrow> Inr (Some gitdir)
      | Inr False \<Rightarrow> first_valid env rv rest)"

fun first_valid_all :: "git_env \<Rightarrow> string \<Rightarrow> pyval list list \<Rightarrow> exc + pyval option" where
  "first_valid_all env rv [] = Inr None"
| "first_valid_all env rv (gitdirs # rest) =
     (case first_valid env rv gitdirs of
        Inl e \<Rightarrow> Inl e
      | Inr (Some g) \<Rightarrow> Inr (Some g)
      | Inr None \<Rightarrow> first_valid_all env rv rest)"

definition find_gitdir :: "git_env \<Rightarrow> gitdir_collection \<Rightarrow> pyval \<Rightarrow> string \<Rightarrow> exc + pyval option" where
  "find_gitdir env gitdirs path_hint rv =
     (case (case map_of gitdirs (py_str path_hint) of
              None \<Rightarrow> Inr None
            | Some ds \<Rightarrow> if ds \<noteq> [] then first_valid env rv ds else Inr None) of
        Inl e \<Rightarrow> Inl e
      | Inr (Some g) \<Rightarrow> Inr (Some g)
      | Inr None \<Rightarrow> first_valid_all env rv (map snd gitdirs))"

section \<open>Reading the submodule configuration\<close>

fun config_dict :: "string list \<Rightarrow> (string \<times> string) list \<Rightarrow> exc + (string \<times> string) list" where
  "config_dict [] dic = Inr dic"
| "config_dict (line # lines) dic =
     (case split_on CHR ''='' 1 line of
        [key, val] \<Rightarrow> config_dict lines (dict_set key val dic)
      | _ \<Rightarrow> Inl ValueError)"

definition git_config ::
  "git_env \<Rightarrow> string option \<Rightarrow> string option \<Rightarrow> pyval option
     \<Rightarrow> exc + (string \<times> string) list option" where
  "git_config env file blob gitdir =
     (let has_file = (case file of Some f \<Rightarrow> f \<noteq> [] | None \<Rightarrow> False);
          has_blob = (case blob of Some b \<Rightarrow> b \<noteq> [] | None \<Rightarrow> False);
          args1 = (if has_file then [''--file'', the file] else [])
      in if has_blob \<and> has_file then Inl AssertionError
         else (case git None gitdir
                      ([''config''] @ args1 @ (if has_blob then [''--blob'', the blob] else [])
                         @ [''--list'']) of
                 Inl e \<Rightarrow> Inl e
               | Inr cmd \<Rightarrow>
                   (case run_cmd env cmd of (retcode, out) \<Rightarrow>
                      if retcode \<noteq> 0 then Inr None
                      else (case config_dict (splitlines out) [] of
                              Inl e \<Rightarrow> Inl e
                            | Inr dic \<Rightarrow> Inr (Some dic)))))"

fun submodule_name :: "(string \<times> string) list \<Rightarrow> string \<Rightarrow> string option" where
  "submodule_name [] path = None"
| "submodule_name ((key, val) # rest) path =
     (if \<not> startswith key ''submodule.'' then submodule_name rest path
      else if \<not> endswith key ''.path'' then submodule_name rest path
      else if val \<noteq> path then submodule_name rest path
      else Some (drop (length ''submodule.'') (take (length key - length ''.path'') key)))"

fun submodule_keys :: "string \<Rightarrow> (string \<times> string) list \<Rightarrow> (string \<times> string) list
                        \<Rightarrow> (string \<times> string) list" where
  "submodule_keys dulekey [] config = config"
| "submodule_keys dulekey ((key, val) # rest) config =
     (if startswith key dulekey
      then submodule_keys dulekey rest (dict_set (drop (length dulekey) key) val config)
      else submodule_keys dulekey rest config)"

definition extract_submodule_config ::
  "(string \<times> string) list \<Rightarrow> string \<Rightarrow> (string \<times> string) list option" where
  "extract_submodule_config configs path =
     (case submodule_name configs path of
        None \<Rightarrow> None
      | Some name \<Rightarrow>
          Some (submodule_keys (''submodule.'' @ name @ ''.'') configs [(''name'', name)]))"

section \<open>Walking the submodules of a revision\<close>

type_synonym node = "string \<times> pyval \<times> string"

datatype event =
    Info message
  | Warning message
  | Error message
  | Fatal message
  | Popen nat "string list"
  | Waited nat
  | Run "string list"
  | Unlink string

text \<open>What a generator hands to its consumer, in order: the values it yields and,
  between them, what it prints.\<close>

datatype item = Yield node | Out event

datatype outcome = Finished | Raised exc | Out_of_fuel

fun yields :: "item list \<Rightarrow> node list" where
  "yields [] = []"
| "yields (Yield n # xs) = n # yields xs"
| "yields (Out e # xs) = yields xs"

fun outs :: "item list \<Rightarrow> event list" where
  "outs [] = []"
| "outs (Yield n # xs) = outs xs"
| "outs (Out e # xs) = e # outs xs"

text \<open>
  \<open>iter_git_submodules_at_rev\<close> is a generator over the lines of \<open>git ls-tree\<close>: a
  line that does not unpack into four fields raises only when the loop reaches it,
  so each line is kept with its own result (\<open>Inr None\<close>: not a \<open>commit\<close> entry).
\<close>

definition ls_tree_line :: "string \<Rightarrow> exc + (string \<times> string) option" where
  "ls_tree_line line =
     (case split_ws 3 line of
        [chmod, typ, obj, path] \<Rightarrow> if typ \<noteq> ''commit'' then Inr None else Inr (Some (path, obj))
      | _ \<Rightarrow> Inl ValueError)"

text \<open>\<open>git(..., ret=STDOUT)\<close>: \<open>fatal\<close> prints its message and raises.\<close>

definition git_stdout ::
  "git_env \<Rightarrow> pyval option \<Rightarrow> pyval option \<Rightarrow> string list \<Rightarrow> (event list \<times> exc) + string" where
  "git_stdout env pwd gitdir subcommand =
     (case git pwd gitdir subcommand of
        Inl e \<Rightarrow> Inl ([], e)
      | Inr cmd \<Rightarrow>
          (case run_stdout env cmd of
             Inl m \<Rightarrow> Inl ([Fatal m], RuntimeError m)
           | Inr out \<Rightarrow> Inr out))"

definition iter_git_submodules_at_rev ::
  "git_env \<Rightarrow> pyval \<Rightarrow> string \<Rightarrow> (event list \<times> exc) + (exc + (string \<times> string) option) list" where
  "iter_git_submodules_at_rev env gitdir rv =
     (case git_stdout env None (Some gitdir) [''ls-tree'', ''-r'', ''--full-tree'', rv] of
        Inl x \<Rightarrow> Inl x
      | Inr out \<Rightarrow> Inr (map ls_tree_line (splitlines out)))"

text \<open>What the walk prints between \<open>find\<close> returning \<open>None\<close> and \<open>sys.exit(0)\<close>.\<close>

definition not_found_report ::
  "git_env \<Rightarrow> string \<Rightarrow> pyval \<Rightarrow> string \<Rightarrow> string \<Rightarrow> string \<Rightarrow> item list \<times> outcome" where
  "not_found_report env top_path top_gitdir top_rev path rv =
     (let err = Out (Error (Could_not_find (top_path @ ''/'' @ path) rv path top_path (py_str top_gitdir) top_rev))
      in case git_config env None (Some (top_rev @ '':.gitmodules'')) (Some top_gitdir) of
           Inl e \<Rightarrow> ([err], Raised e)
         | Inr None \<Rightarrow> ([err], Raised (SystemExit 0))
         | Inr (Some configs) \<Rightarrow>
             if configs = [] then ([err], Raised (SystemExit 0))
             else (case extract_submodule_config configs path of
                     None \<Rightarrow> ([err], Raised (SystemExit 0))
                   | Some config \<Rightarrow>
                       ([err, Out (Info (FYI_gitmodule config))], Raised (SystemExit 0))))"

text \<open>
  The loop of \<open>recursively_iter_repos\<close> over the entries of one listing;
  \<open>recurse\<close> is the recursive call \<open>recursively_iter_repos(fullpath, gitdir, rev,
  gitdirs, depth_count_down - 1)\<close>.
\<close>

fun iter_entries ::
  "(string \<Rightarrow> pyval \<Rightarrow> string \<Rightarrow> int \<Rightarrow> item list \<times> outcome) \<Rightarrow> git_env \<Rightarrow> gitdir_collection
     \<Rightarrow> string \<Rightarrow> pyval \<Rightarrow> string \<Rightarrow> int \<Rightarrow> (exc + (string \<times> string) option) list
     \<Rightarrow> item list \<times> outcome" where
  "iter_entries recurse env gitdirs top_path top_gitdir top_rev depth_count_down [] = ([], Finished)"
| "iter_entries recurse env gitdirs top_path top_gitdir top_rev depth_count_down (Inl e # rest) =
     ([], Raised e)"
| "iter_entries recurse env gitdirs top_path top_gitdir top_rev depth_count_down (Inr None # rest) =
     iter_entries recurse env gitdirs top_path top_gitdir top_rev depth_count_down rest"
| "iter_entries recurse env gitdirs top_path top_gitdir top_rev depth_count_down
       (Inr (Some (path, rv)) # rest) =
     (if depth_count_down = 0
      then (case iter_entries recurse env gitdirs top_path top_gitdir top_rev depth_count_down rest of
              (items, r) \<Rightarrow> (Out (Info (Skipping_depth top_path path)) # items, r))
      else if path = [] then ([], Raised IndexError)
      else if \<not> (hd path \<noteq> CHR ''/'' \<and> last path \<noteq> CHR ''/'') then ([], Raised AssertionError)
      else (case find_gitdir env gitdirs (PyStr (top_path @ ''/'' @ path)) rv of
              Inl e \<Rightarrow> ([], Raised e)
            | Inr None \<Rightarrow> not_found_report env top_path top_gitdir top_rev path rv
            | Inr (Some gitdir) \<Rightarrow>
                (case recurse (top_path @ ''/'' @ path) gitdir rv (depth_count_down - 1) of
                   (items, Finished) \<Rightarrow>
                     (case iter_entries recurse env gitdirs top_path top_gitdir top_rev
                             depth_count_down rest of
                        (items2, r) \<Rightarrow> (items @ items2, r))
                 | (items, r) \<Rightarrow> (items, r))))"

text \<open>
  \<open>top_path\<close> is the parameter \<open>top\<close> of the source. The first argument bounds the depth of the recursion: \<open>Out_of_fuel\<close> says that the
  walk went deeper. Python's integers are unbounded, so a negative
  \<open>depth_count_down\<close> never counts down to \<open>0\<close>.
\<close>

fun recursively_iter_repos ::
  "nat \<Rightarrow> git_env \<Rightarrow> gitdir_collection \<Rightarrow> string \<Rightarrow> pyval \<Rightarrow> string \<Rightarrow> int
     \<Rightarrow> item list \<times> outcome" where
  "recursively_iter_repos 0 env gitdirs top_path top_gitdir top_rev depth_count_down =
     ([], Out_of_fuel)"
| "recursively_iter_repos (Suc n) env gitdirs top_path top_gitdir top_rev depth_count_down =
     (case iter_git_submodules_at_rev env top_gitdir top_rev of
        Inl (evs, e) \<Rightarrow> (Yield (top_path, top_gitdir, top_rev) # map Out evs, Raised e)
      | Inr entries \<Rightarrow>
          (case iter_entries (recursively_iter_repos n env gitdirs) env gitdirs
                  top_path top_gitdir top_rev depth_count_down entries of
             (items, r) \<Rightarrow> (Yield (top_path, top_gitdir, top_rev) # items, r)))"

section \<open>Child processes, files and time\<close>

text \<open>
  An archive file is the sequence of the segments concatenated into it; the segment
  that \<open>git archive\<close> writes is named by the git-dir, the revision and the prefix it
  was asked for. The world decides what the program cannot: how long the \<open>k\<close>-th
  process it starts runs (\<open>None\<close>: it never exits) and with which status it exits,
  whether starting it fails, what a failing \<open>git archive\<close> leaves on disk, the
  status of a \<open>tar\<close> run, and whether removing a file is refused. Time is counted
  in polling intervals of \<open>launch\<close>.
\<close>

datatype segment = Archive_of string string string

type_synonym files = "string \<rightharpoonup> segment list"

record world =
  proc_duration :: "nat \<Rightarrow> nat option"
  proc_returncode :: "nat \<Rightarrow> int"
  popen_error :: "nat \<Rightarrow> string list \<Rightarrow> exc option"
  failed_output :: "nat \<Rightarrow> segment list option"
  tar_returncode :: "string \<Rightarrow> string \<Rightarrow> int"
  unlink_denied :: "string \<Rightarrow> bool"

record machine =
  files :: files
  clock :: nat
  launched :: nat

record proc =
  pid :: nat
  args :: "string list"
  userdata :: string
  started :: nat

text \<open>
  What the \<open>k\<close>-th child leaves on disk once it has exited: a \<open>git archive\<close> that
  exits with status \<open>0\<close> has written its \<open>--output\<close> file; one that exits with
  another status leaves what the world says, nothing or a file (an empty one, when
  it failed after creating it). Nothing reads that file before the program has
  waited for the child, so the file is entered when the child is started.
\<close>

definition child_output :: "world \<Rightarrow> nat \<Rightarrow> string list \<Rightarrow> files \<Rightarrow> files" where
  "child_output w k cmd fs =
     (if length cmd = 11 \<and> cmd ! 0 = ''git'' \<and> cmd ! 1 = ''--git-dir'' \<and> cmd ! 3 = ''archive''
         \<and> cmd ! 4 = ''--format'' \<and> cmd ! 6 = ''--output'' \<and> cmd ! 9 = ''--prefix''
         \<and> proc_duration w k \<noteq> None
      then (if proc_returncode w k = 0
            then fs(cmd ! 7 \<mapsto> [Archive_of (cmd ! 2) (cmd ! 8) (cmd ! 10)])
            else (case failed_output w k of None \<Rightarrow> fs | Some a \<Rightarrow> fs(cmd ! 7 \<mapsto> a)))
      else fs)"

text \<open>
  \<open>subprocess.Popen(cmd)\<close> raises \<open>IndexError\<close> for an empty command, and
  whatever the world says when the start fails (the program is missing, the system
  refuses); \<open>None\<close>: the process is started.
\<close>

definition popen :: "world \<Rightarrow> nat \<Rightarrow> string list \<Rightarrow> exc option" where
  "popen w k cmd = (if cmd = [] then Some IndexError else popen_error w k cmd)"

text \<open>\<open>p.poll() is None\<close> at time \<open>t\<close>, and \<open>p.wait()\<close> called at time \<open>t\<close>.\<close>

definition running :: "world \<Rightarrow> nat \<Rightarrow> proc \<Rightarrow> bool" where
  "running w t p = (case proc_duration w (pid p) of None \<Rightarrow> True | Some d \<Rightarrow> t < started p + d)"

definition wait :: "world \<Rightarrow> proc \<Rightarrow> nat \<Rightarrow> nat option" where
  "wait w p t = (case proc_duration w (pid p) of None \<Rightarrow> None | Some d \<Rightarrow> Some (max t (started p + d)))"

text \<open>\<open>tar --concatenate -f final seg\<close> appends the segments of \<open>seg\<close> to \<open>final\<close>,
  which it creates when it is missing; a failing \<open>tar\<close> is taken to change nothing.\<close>

definition run_tar :: "world \<Rightarrow> string \<Rightarrow> string \<Rightarrow> files \<Rightarrow> int \<times> files" where
  "run_tar w final seg fs =
     (case fs seg of
        None \<Rightarrow> (2, fs)
      | Some a \<Rightarrow>
          if tar_returncode w final seg \<noteq> 0 then (tar_returncode w final seg, fs)
          else (0, fs(final \<mapsto> (case fs final of None \<Rightarrow> [] | Some b \<Rightarrow> b) @ a)))"

definition os_unlink :: "world \<Rightarrow> string \<Rightarrow> files \<Rightarrow> exc + files" where
  "os_unlink w path fs =
     (if fs path = None then Inl FileNotFoundError
      else if unlink_denied w path then Inl OSError
      else Inr (fs(path := None)))"

section \<open>ParallelJobs\<close>

record parallel_jobs =
  pending :: "proc list"
  nproc :: int

definition ParallelJobs :: "int \<Rightarrow> parallel_jobs" where
  "ParallelJobs n = \<lparr>pending = [], nproc = (if n \<le> 0 then - 1 else n)\<rparr>"

text \<open>The polling loop of \<open>launch\<close>: the time at which fewer than \<open>nproc\<close> of the
  pending processes are running; \<open>None\<close> when that never happens.\<close>

partial_function (option) wait_for_slot :: "world \<Rightarrow> parallel_jobs \<Rightarrow> nat \<Rightarrow> nat option" where
  "wait_for_slot w jobs t =
     (if int (length (filter (running w t) (pending jobs))) < nproc jobs then Some t
      else wait_for_slot w jobs (t + 1))"

declare wait_for_slot.simps [code]

text \<open>\<open>launch\<close>: when \<open>Popen\<close> raises, nothing was appended to \<open>pending\<close>.\<close>

definition launch ::
  "world \<Rightarrow> string list \<Rightarrow> string \<Rightarrow> parallel_jobs \<Rightarrow> machine
     \<Rightarrow> (event list \<times> (exc + parallel_jobs) \<times> machine) option" where
  "launch w cmd ud jobs m =
     (case (if nproc jobs > 1 then wait_for_slot w jobs (clock m) else Some (clock m)) of
        None \<Rightarrow> None
      | Some t \<Rightarrow>
          (case popen w (launched m) cmd of
             Some e \<Rightarrow> Some ([], Inl e, m\<lparr>clock := t\<rparr>)
           | None \<Rightarrow>
               (let p = \<lparr>pid = launched m, args = cmd, userdata = ud, started = t\<rparr>;
                    m1 = m\<lparr>files := child_output w (launched m) cmd (files m), clock := t,
                           launched := Suc (launched m)\<rparr>
                in if nproc jobs = 1
                   then (case wait w p t of
                           None \<Rightarrow> None
                         | Some t2 \<Rightarrow>
                             Some ([Popen (pid p) cmd, Waited (pid p)],
                                   Inr (jobs\<lparr>pending := pending jobs @ [p]\<rparr>),
                                   m1\<lparr>clock := t2\<rparr>))
                   else Some ([Popen (pid p) cmd],
                              Inr (jobs\<lparr>pending := pending jobs @ [p]\<rparr>), m1))))"

definition can_wait :: "parallel_jobs \<Rightarrow> bool" where
  "can_wait jobs = (length (pending jobs) > 0)"

definition wait_next_in_order ::
  "world \<Rightarrow> parallel_jobs \<Rightarrow> machine \<Rightarrow> (exc + proc \<times> parallel_jobs \<times> machine) option" where
  "wait_next_in_order w jobs m =
     (case pending jobs of
        [] \<Rightarrow> Some (Inl IndexError)
      | p # rest \<Rightarrow>
          (case wait w p (clock m) of
             None \<Rightarrow> None
           | Some t \<Rightarrow> Some (Inr (p, jobs\<lparr>pending := rest\<rparr>, m\<lparr>clock := t\<rparr>))))"

section \<open>main\<close>

record options =
  opt_tree_ish :: "string option"
  opt_output :: string
  opt_format :: "string option"
  opt_prefix :: string
  opt_nproc :: int
  opt_lookup :: "string list option"
  opt_depth :: int
  opt_dryrun :: bool

definition SUPPORTED_FORMAT :: "string list" where
  "SUPPORTED_FORMAT = [''tar'']"

text \<open>The format after the loop over the extensions: the loop has no \<open>break\<close>, so
  the last extension that matches stays.\<close>

definition infer_format :: "options \<Rightarrow> string option" where
  "infer_format opt =
     (case opt_format opt of
        None \<Rightarrow> foldl (\<lambda>f ext. if endswith (opt_output opt) (''.'' @ ext) then Some ext else f) None
                  [''tar.gz'', ''tar'', ''tgz'', ''zip'']
      | Some f \<Rightarrow> Some f)"

text \<open>
  One line of \<open>git submodule foreach\<close> in \<open>iter_current_submodules_gitdirs\<close>. The
  second assertion of the source has no comma before its message, so it compares
  \<open>rel_path[0]\<close> with the concatenation of \<open>'/'\<close> and the message.
\<close>

definition foreach_line :: "git_env \<Rightarrow> string \<Rightarrow> exc + pyval \<times> pyval" where
  "foreach_line env line =
     (case split_on CHR '' '' 3 line of
        [name, rel_path, parent, gitdir] \<Rightarrow>
          if parent = [] then Inl IndexError
          else if \<not> last parent \<noteq> CHR ''/'' then Inl AssertionError
          else if rel_path = [] then Inl IndexError
          else if \<not> [hd rel_path] \<noteq> ''/'' @ ''expect relative path, no leading /''
          then Inl AssertionError
          else if \<not> is_dir env (parse_path gitdir) then Inl AssertionError
          else if \<not> root (parse_path gitdir) \<noteq> [] then Inl AssertionError
          else Inr (PyPath (parse_path (parent @ ''/'' @ rel_path)), PyPath (parse_path gitdir))
      | _ \<Rightarrow> Inl ValueError)"

definition iter_current_submodules_gitdirs ::
  "git_env \<Rightarrow> pyval \<Rightarrow> (event list \<times> exc) + (exc + pyval \<times> pyval) list" where
  "iter_current_submodules_gitdirs env pwd =
     (case git_stdout env (Some pwd) None
             [''submodule'', ''foreach'', ''-q'', ''--recursive'',
              ''echo $name $sm_path $toplevel $(git rev-parse --absolute-git-dir)''] of
        Inl x \<Rightarrow> Inl x
      | Inr out \<Rightarrow> Inr (map (foreach_line env) (splitlines out)))"

fun add_all :: "(exc + pyval \<times> pyval) list \<Rightarrow> gitdir_collection \<Rightarrow> exc + gitdir_collection" where
  "add_all [] gitdirs = Inr gitdirs"
| "add_all (Inl e # rest) gitdirs = Inl e"
| "add_all (Inr (abspath, gitdir) # rest) gitdirs = add_all rest (add abspath gitdir gitdirs)"

text \<open>Lines 363 to 376 of the source: the revision, the top directory, its git-dir
  and the collection of git-dirs to look into.\<close>

definition resolve ::
  "git_env \<Rightarrow> options
     \<Rightarrow> (event list \<times> exc) + string \<times> string \<times> string \<times> gitdir_collection" where
  "resolve env opt =
     (case git_stdout env None None
             [''rev-parse'', (case opt_tree_ish opt of None \<Rightarrow> ''HEAD'' | Some r \<Rightarrow> r)] of
        Inl x \<Rightarrow> Inl x
      | Inr out1 \<Rightarrow>
     (case git_stdout env None None [''rev-parse'', ''--show-toplevel''] of
        Inl x \<Rightarrow> Inl x
      | Inr out2 \<Rightarrow>
     (case git_stdout env None None [''rev-parse'', ''--absolute-git-dir''] of
        Inl x \<Rightarrow> Inl x
      | Inr out3 \<Rightarrow>
     (case iter_current_submodules_gitdirs env (PyStr (strip out2)) of
        Inl x \<Rightarrow> Inl x
      | Inr pairs \<Rightarrow>
     (case add_all pairs (add (PyStr (strip out2)) (PyStr (strip out3)) []) of
        Inl e \<Rightarrow> Inl ([], e)
      | Inr gitdirs \<Rightarrow>
          Inr (strip out1, strip out2, strip out3,
               (case opt_lookup opt of
                  None \<Rightarrow> gitdirs
                | Some ls \<Rightarrow> foldl (\<lambda>g l. add (PyStr ''--lookup'') (PyStr l) g) gitdirs ls)))))))"

text \<open>What the body of the \<open>for\<close> loop computes for a node: the prefix, the
  output file of the segment (\<open>ud.output\<close>) and the command it launches.\<close>

definition archive_prefix :: "options \<Rightarrow> string \<Rightarrow> string \<Rightarrow> string" where
  "archive_prefix opt top_slash fullpath =
     opt_prefix opt @ drop (length top_slash) (fullpath @ ''/'')"

definition segment_output :: "options \<Rightarrow> nat \<Rightarrow> string" where
  "segment_output opt ntotal = opt_output opt @ ''.'' @ str_nat ntotal"

definition archive_cmd :: "options \<Rightarrow> string \<Rightarrow> string \<Rightarrow> nat \<Rightarrow> node \<Rightarrow> string list" where
  "archive_cmd opt fmt top_slash ntotal nd =
     (case nd of (fullpath, gitdir, rv) \<Rightarrow>
        [''git'', ''--git-dir'', py_str gitdir, ''archive'', ''--format'', fmt,
         ''--output'', segment_output opt ntotal, rv,
         ''--prefix'', archive_prefix opt top_slash fullpath])"

text \<open>The \<open>for\<close> loop over the walk (lines 382 to 405), fed with what the generator
  hands over; it returns the counter \<open>total\<close> (here \<open>ntotal\<close>) and the jobs.\<close>

fun archive_nodes ::
  "world \<Rightarrow> options \<Rightarrow> string \<Rightarrow> string \<Rightarrow> item list \<Rightarrow> nat \<Rightarrow> parallel_jobs \<Rightarrow> machine
     \<Rightarrow> (event list \<times> (exc + nat \<times> parallel_jobs) \<times> machine) option" where
  "archive_nodes w opt fmt top_slash [] ntotal jobs m = Some ([], Inr (ntotal, jobs), m)"
| "archive_nodes w opt fmt top_slash (Out e # rest) ntotal jobs m =
     (case archive_nodes w opt fmt top_slash rest ntotal jobs m of
        None \<Rightarrow> None
      | Some (evs, r, m') \<Rightarrow> Some (e # evs, r, m'))"
| "archive_nodes w opt fmt top_slash (Yield (fullpath, gitdir, rv) # rest) ntotal jobs m =
     (if \<not> startswith (fullpath @ ''/'') top_slash then Some ([], Inl AssertionError, m)
      else if opt_dryrun opt
      then (case archive_nodes w opt fmt top_slash rest (ntotal + 1) jobs m of
              None \<Rightarrow> None
            | Some (evs, r, m') \<Rightarrow>
                Some (Info (Dry_run (ntotal + 1) (archive_prefix opt top_slash fullpath)) # evs,
                      r, m'))
      else (case launch w (archive_cmd opt fmt top_slash ntotal (fullpath, gitdir, rv))
                   (segment_output opt ntotal) jobs m of
              None \<Rightarrow> None
            | Some (evs1, Inl e, m1) \<Rightarrow>
                Some (Info (Launching (ntotal + 1) (archive_prefix opt top_slash fullpath)) # evs1,
                      Inl e, m1)
            | Some (evs1, Inr jobs1, m1) \<Rightarrow>
                (case archive_nodes w opt fmt top_slash rest (ntotal + 1) jobs1 m1 of
                   None \<Rightarrow> None
                 | Some (evs, r, m') \<Rightarrow>
                     Some (Info (Launching (ntotal + 1) (archive_prefix opt top_slash fullpath))
                             # evs1 @ evs,
                           r, m'))))"

text \<open>The \<open>while\<close> loop (lines 417 to 431); \<open>ndone\<close> is its counter \<open>done\<close>.\<close>

function assemble ::
  "world \<Rightarrow> string \<Rightarrow> string \<Rightarrow> nat \<Rightarrow> nat \<Rightarrow> parallel_jobs \<Rightarrow> machine
     \<Rightarrow> (event list \<times> (exc + unit) \<times> machine) option" where
  "assemble w fmt final_output ndone ntotal jobs m =
     (if can_wait jobs
      then (case wait_next_in_order w jobs m of
              None \<Rightarrow> None
            | Some (Inl e) \<Rightarrow>
                Some ([Info (Waiting_and_concatenating (ndone + 1) ntotal)], Inl e, m)
            | Some (Inr (p, jobs1, m1)) \<Rightarrow>
                if proc_returncode w (pid p) \<noteq> 0
                then Some ([Info (Waiting_and_concatenating (ndone + 1) ntotal), Waited (pid p),
                            Fatal (Archive_failed (proc_returncode w (pid p)) (args p))],
                           Inl (RuntimeError (Archive_failed (proc_returncode w (pid p)) (args p))),
                           m1)
                else if fmt \<noteq> ''tar''
                then Some ([Info (Waiting_and_concatenating (ndone + 1) ntotal), Waited (pid p)],
                           Inl AssertionError, m1)
                else (case run_tar w final_output (userdata p) (files m1) of
                        (rc, fs2) \<Rightarrow>
                          if rc \<noteq> 0
                          then Some ([Info (Waiting_and_concatenating (ndone + 1) ntotal),
                                      Waited (pid p),
                                      Run [''tar'', ''--concatenate'', ''-f'', final_output, userdata p],
                                      Fatal (Command_failed rc
                                        [''tar'', ''--concatenate'', ''-f'', final_output, userdata p])],
                                     Inl (RuntimeError (Command_failed rc
                                        [''tar'', ''--concatenate'', ''-f'', final_output, userdata p])),
                                     m1\<lparr>files := fs2\<rparr>)
                          else (case assemble w fmt final_output (ndone + 1) ntotal jobs1
                                       (m1\<lparr>files := (case os_unlink w (userdata p) fs2 of
                                                        Inl e \<Rightarrow> fs2 | Inr fs3 \<Rightarrow> fs3)\<rparr>) of
                                  None \<Rightarrow> None
                                | Some (evs, r, m') \<Rightarrow>
                                    Some ([Info (Waiting_and_concatenating (ndone + 1) ntotal),
                                           Waited (pid p),
                                           Run [''tar'', ''--concatenate'', ''-f'', final_output, userdata p],
                                           Unlink (userdata p)]
                                          @ (case os_unlink w (userdata p) fs2 of
                                               Inl e \<Rightarrow> [Warning (Cleanup_exception (userdata p))]
                                             | Inr fs3 \<Rightarrow> [])
                                          @ evs, r, m'))))
      else Some ([], Inr (), m))"
  by pat_completeness auto
termination
  by (relation "measure (\<lambda>(w, fmt, final_output, ndone, ntotal, jobs, m). length (pending jobs))")
     (auto simp: wait_next_in_order_def split: list.splits option.splits)

declare assemble.simps [simp del]

text \<open>
  \<open>main\<close>, from the parsed options: the events of the run, how it ended (the value
  it returned or the exception that left it) and the machine it leaves. \<open>None\<close>: the
  run does not end (a wait that never returns, or a walk deeper than the fuel).
\<close>

definition main ::
  "nat \<Rightarrow> git_env \<Rightarrow> world \<Rightarrow> options \<Rightarrow> machine \<Rightarrow> (event list \<times> (exc + int) \<times> machine) option" where
  "main fuel env w opt m =
     (if (case infer_format opt of None \<Rightarrow> True | Some f \<Rightarrow> f \<notin> set SUPPORTED_FORMAT)
      then Some ([Fatal (Unsupported_format (infer_format opt))],
                 Inl (RuntimeError (Unsupported_format (infer_format opt))), m)
      else
     (case resolve env opt of
        Inl (evs, e) \<Rightarrow> Some (evs, Inl e, m)
      | Inr (top_rev, top_path, top_gitdir, gitdirs) \<Rightarrow>
     (case recursively_iter_repos fuel env gitdirs top_path (PyStr top_gitdir) top_rev (opt_depth opt) of
        (items, r) \<Rightarrow>
     (case archive_nodes w opt (the (infer_format opt)) (top_path @ ''/'') items 0
             (ParallelJobs (opt_nproc opt)) m of
        None \<Rightarrow> None
      | Some (evs, Inl e, m1) \<Rightarrow> Some (evs, Inl e, m1)
      | Some (evs, Inr (ntotal, jobs), m1) \<Rightarrow>
     (case r of
        Out_of_fuel \<Rightarrow> None
      | Raised e \<Rightarrow> Some (evs, Inl e, m1)
      | Finished \<Rightarrow>
          if opt_dryrun opt then Some (evs @ [Info Dry_run_done], Inr 0, m1)
          else
     (case (case os_unlink w (opt_output opt) (files m1) of
              Inl FileNotFoundError \<Rightarrow> Inr (files m1)
            | Inl e \<Rightarrow> Inl e
            | Inr fs \<Rightarrow> Inr fs) of
        Inl e \<Rightarrow> Some (evs @ [Unlink (opt_output opt)], Inl e, m1)
      | Inr fs \<Rightarrow>
     (case assemble w (the (infer_format opt)) (opt_output opt) 0 ntotal jobs (m1\<lparr>files := fs\<rparr>) of
        None \<Rightarrow> None
      | Some (evs2, Inl e, m2) \<Rightarrow> Some (evs @ [Unlink (opt_output opt)] @ evs2, Inl e, m2)
      | Some (evs2, Inr u, m2) \<Rightarrow>
          Some (evs @ [Unlink (opt_output opt)] @ evs2 @ [Info Done_msg], Inr 0, m2))))))))"

text \<open>The exit status of the interpreter: \<open>sys.exit(main(...))\<close>, a \<open>SystemExit\<close>
  raised inside, or \<open>1\<close> for any other exception that nothing catches.\<close>

fun exit_status :: "exc + int \<Rightarrow> int" where
  "exit_status (Inr n) = n"
| "exit_status (Inl (SystemExit n)) = n"
| "exit_status (Inl e) = 1"

section \<open>Notions the properties are stated with\<close>

text \<open>
  The order in which \<open>find\<close> looks: the git-dirs registered under the hint, then
  those of every hint. A git-dir contains a commit when the program's own check
  answers \<open>True\<close>, lacks it when the check answers \<open>False\<close>; the check can also
  raise, when \<open>git\<close> resolves the name to another id.
\<close>

definition hinted_gitdirs :: "gitdir_collection \<Rightarrow> pyval \<Rightarrow> pyval list" where
  "hinted_gitdirs gitdirs path_hint =
     (case map_of gitdirs (py_str path_hint) of None \<Rightarrow> [] | Some ds \<Rightarrow> ds)"

definition all_gitdirs :: "gitdir_collection \<Rightarrow> pyval list" where
  "all_gitdirs gitdirs = concat (map snd gitdirs)"

definition contains_commit :: "git_env \<Rightarrow> string \<Rightarrow> pyval \<Rightarrow> bool" where
  "contains_commit env rv g = (is_valid_git_object env rv ''commit'' g = Inr True)"

definition lacks_commit :: "git_env \<Rightarrow> string \<Rightarrow> pyval \<Rightarrow> bool" where
  "lacks_commit env rv g = (is_valid_git_object env rv ''commit'' g = Inr False)"

text \<open>
  A tree as git stores it: mode, type, object name and path of every entry.
  \<open>git ls-tree -r --full-tree\<close> prints one line per entry,
  \<open><mode> SP <type> SP <object> TAB <file>\<close>, the path as it is when it has no control
  character, quote, backslash or non-ASCII byte. The gitlinks of a tree are its
  entries of type \<open>commit\<close>, each with its path and the commit it pins.
\<close>

record tree_entry =
  entry_mode :: string
  entry_type :: string
  entry_object :: string
  entry_path :: string

definition ls_tree_record :: "tree_entry \<Rightarrow> string" where
  "ls_tree_record e =
     entry_mode e @ '' '' @ entry_type e @ '' '' @ entry_object e @ [CHR 0x09] @ entry_path e
       @ [CHR 0x0A]"

definition ls_tree_output :: "tree_entry list \<Rightarrow> string" where
  "ls_tree_output es = concat (map ls_tree_record es)"

definition tree_gitlinks :: "tree_entry list \<Rightarrow> (string \<times> string) list" where
  "tree_gitlinks es =
     map (\<lambda>e. (entry_path e, entry_object e)) (filter (\<lambda>e. entry_type e = ''commit'') es)"

text \<open>
  The tree of repositories of a revision as the program reads the listings: a node
  is a path, the git-dir found for it and its revision; its children are the entries
  that \<open>iter_git_submodules_at_rev\<close> reads off the listing of the node, in the order
  of the listing, each with the git-dir that \<open>find\<close> returns for it; below
  \<open>max_depth\<close> levels the tree is cut, and a negative \<open>max_depth\<close> cuts nowhere.
  The tree exists (\<open>Some\<close>) when every listing it needs succeeds and has four
  fields on every line, no path read starts or ends with \<open>/\<close>, and every link is
  found. \<open>preorder\<close> lists a node, then the subtrees of its children one after the
  other.
\<close>

datatype repo_tree = Repo node "repo_tree list"

fun preorder :: "repo_tree \<Rightarrow> node list" where
  "preorder (Repo nd ts) = nd # concat (map preorder ts)"

text \<open>The entries of type \<open>commit\<close> that the program reads off a listing: path and
  pinned revision.\<close>

fun commit_entries :: "(exc + (string \<times> string) option) list \<Rightarrow> (string \<times> string) list option" where
  "commit_entries [] = Some []"
| "commit_entries (Inl e # rest) = None"
| "commit_entries (Inr None # rest) = commit_entries rest"
| "commit_entries (Inr (Some l) # rest) = map_option ((#) l) (commit_entries rest)"

definition gitlinks :: "git_env \<Rightarrow> pyval \<Rightarrow> string \<Rightarrow> (string \<times> string) list option" where
  "gitlinks env gitdir rv =
     (case iter_git_submodules_at_rev env gitdir rv of
        Inl x \<Rightarrow> None
      | Inr entries \<Rightarrow> commit_entries entries)"

definition child_of ::
  "(string \<Rightarrow> pyval \<Rightarrow> string \<Rightarrow> repo_tree option) \<Rightarrow> git_env \<Rightarrow> gitdir_collection \<Rightarrow> string
     \<Rightarrow> string \<times> string \<Rightarrow> repo_tree option" where
  "child_of sub env gitdirs top_path link =
     (case link of (path, rv) \<Rightarrow>
        if path = [] \<or> hd path = CHR ''/'' \<or> last path = CHR ''/'' then None
        else (case find_gitdir env gitdirs (PyStr (top_path @ ''/'' @ path)) rv of
                Inr (Some g) \<Rightarrow> sub (top_path @ ''/'' @ path) g rv
              | _ \<Rightarrow> None))"

fun revision_tree ::
  "nat \<Rightarrow> git_env \<Rightarrow> gitdir_collection \<Rightarrow> string \<Rightarrow> pyval \<Rightarrow> string \<Rightarrow> int \<Rightarrow> repo_tree option" where
  "revision_tree 0 env gitdirs top_path gitdir rv max_depth = None"
| "revision_tree (Suc n) env gitdirs top_path gitdir rv max_depth =
     (case gitlinks env gitdir rv of
        None \<Rightarrow> None
      | Some links \<Rightarrow>
          if max_depth = 0 then Some (Repo (top_path, gitdir, rv) [])
          else map_option (Repo (top_path, gitdir, rv))
                 (those (map (child_of (\<lambda>tp g r. revision_tree n env gitdirs tp g r (max_depth - 1))
                                env gitdirs top_path) links)))"


text \<open>
  The tree of repositories of a revision as the walk is specified, from the trees
  themselves: \<open>trees\<close> gives the entries of the tree of a revision in a git-dir, and
  the children of a node are the gitlinks of its tree, in the order of the tree, each
  at its own path below the node, with the git-dir that \<open>find\<close> returns for that
  path and commit.
\<close>

fun gitlink_tree ::
  "nat \<Rightarrow> (pyval \<Rightarrow> string \<Rightarrow> tree_entry list option) \<Rightarrow> git_env \<Rightarrow> gitdir_collection
     \<Rightarrow> string \<Rightarrow> pyval \<Rightarrow> string \<Rightarrow> int \<Rightarrow> repo_tree option" where
  "gitlink_tree 0 trees env gitdirs top_path gitdir rv max_depth = None"
| "gitlink_tree (Suc n) trees env gitdirs top_path gitdir rv max_depth =
     (case trees gitdir rv of
        None \<Rightarrow> None
      | Some es \<Rightarrow>
          if max_depth = 0 then Some (Repo (top_path, gitdir, rv) [])
          else map_option (Repo (top_path, gitdir, rv))
                 (those (map (child_of (\<lambda>tp g r. gitlink_tree n trees env gitdirs tp g r
                                                    (max_depth - 1))
                                env gitdirs top_path) (tree_gitlinks es))))"

text \<open>
  The scheduler under test: launch a list of jobs (command and user data), stopping
  at the first \<open>Popen\<close> that raises; then take the jobs back with
  \<open>wait_next_in_order\<close> as long as \<open>can_wait\<close> holds, noting for each job the time at
  which the call returned it.
\<close>

fun launch_all ::
  "world \<Rightarrow> (string list \<times> string) list \<Rightarrow> parallel_jobs \<Rightarrow> machine
     \<Rightarrow> ((exc + parallel_jobs) \<times> machine) option" where
  "launch_all w [] jobs m = Some (Inr jobs, m)"
| "launch_all w ((cmd, ud) # rest) jobs m =
     (case launch w cmd ud jobs m of
        None \<Rightarrow> None
      | Some (evs, Inl e, m1) \<Rightarrow> Some (Inl e, m1)
      | Some (evs, Inr jobs1, m1) \<Rightarrow> launch_all w rest jobs1 m1)"

function wait_all ::
  "world \<Rightarrow> parallel_jobs \<Rightarrow> machine \<Rightarrow> ((proc \<times> nat) list \<times> machine) option" where
  "wait_all w jobs m =
     (if can_wait jobs
      then (case wait_next_in_order w jobs m of
              None \<Rightarrow> None
            | Some (Inl e) \<Rightarrow> Some ([], m)
            | Some (Inr (p, jobs1, m1)) \<Rightarrow>
                (case wait_all w jobs1 m1 of
                   None \<Rightarrow> None
                 | Some (rs, m2) \<Rightarrow> Some ((p, clock m1) # rs, m2)))
      else Some ([], m))"
  by pat_completeness auto
termination
  by (relation "measure (\<lambda>(w, jobs, m). length (pending jobs))")
     (auto simp: wait_next_in_order_def split: list.splits option.splits)

declare wait_all.simps [simp del]

definition job_of :: "proc \<Rightarrow> string list \<times> string" where
  "job_of p = (args p, userdata p)"

text \<open>
  Kinds of events. Launching a job prints \<open>Launching\<close> and starts a process; the
  assembly removes the final file, waits and concatenates; an effect is anything done
  to a process or a file. \<open>popen_cmds\<close> are the commands started, \<open>dry_run_lines\<close> the
  lines a dry run prints for the nodes, and \<open>is_walk_print\<close> covers what the walk and
  the git queries can print.
\<close>

fun is_launch :: "event \<Rightarrow> bool" where
  "is_launch (Popen k cmd) = True"
| "is_launch (Info (Launching k p)) = True"
| "is_launch e = False"

fun is_assembly :: "event \<Rightarrow> bool" where
  "is_assembly (Unlink path) = True"
| "is_assembly (Run cmd) = True"
| "is_assembly (Info (Waiting_and_concatenating k n)) = True"
| "is_assembly e = False"

fun is_effect :: "event \<Rightarrow> bool" where
  "is_effect (Popen k cmd) = True"
| "is_effect (Waited k) = True"
| "is_effect (Run cmd) = True"
| "is_effect (Unlink path) = True"
| "is_effect e = False"

fun popen_cmds :: "event list \<Rightarrow> string list list" where
  "popen_cmds [] = []"
| "popen_cmds (Popen k cmd # evs) = cmd # popen_cmds evs"
| "popen_cmds (e # evs) = popen_cmds evs"

fun dry_run_lines :: "event list \<Rightarrow> (nat \<times> string) list" where
  "dry_run_lines [] = []"
| "dry_run_lines (Info (Dry_run k p) # evs) = (k, p) # dry_run_lines evs"
| "dry_run_lines (e # evs) = dry_run_lines evs"

fun is_walk_print :: "event \<Rightarrow> bool" where
  "is_walk_print (Info (Skipping_depth t p)) = True"
| "is_walk_print (Info (FYI_gitmodule c)) = True"
| "is_walk_print (Error (Could_not_find a b c d e f)) = True"
| "is_walk_print (Fatal (Command_failed rc cmd)) = True"
| "is_walk_print e = False"

text \<open>A node lies under the top directory: what the \<open>assert\<close> in the loop of
  \<open>main\<close> checks.\<close>

definition under :: "string \<Rightarrow> node \<Rightarrow> bool" where
  "under tp nd = startswith (fst nd @ ''/'') (tp @ ''/'')"

text \<open>Removing the final file before the assembly: a missing file is no error.\<close>

definition final_unlink :: "world \<Rightarrow> string \<Rightarrow> files \<Rightarrow> exc + files" where
  "final_unlink w path fs =
     (case os_unlink w path fs of
        Inl FileNotFoundError \<Rightarrow> Inr fs
      | Inl e \<Rightarrow> Inl e
      | Inr fs' \<Rightarrow> Inr fs')"

text \<open>
  The assembly as it is specified. A job is good when its process exited with
  status \<open>0\<close> and \<open>tar\<close> takes its segment: the segment file exists and \<open>tar\<close>
  exits with status \<open>0\<close>. Of the pending jobs, in the order of their launch, the
  assembly takes the good ones up to the first job that is not good (\<open>first_bad\<close>);
  \<open>consumed\<close> are the jobs it waits for, the good ones and that one.
\<close>

definition job_ok :: "world \<Rightarrow> string \<Rightarrow> files \<Rightarrow> proc \<Rightarrow> bool" where
  "job_ok w final fs p =
     (proc_returncode w (pid p) = 0 \<and> fs (userdata p) \<noteq> None
      \<and> tar_returncode w final (userdata p) = 0)"

definition good_jobs :: "world \<Rightarrow> string \<Rightarrow> files \<Rightarrow> proc list \<Rightarrow> proc list" where
  "good_jobs w final fs ps = takeWhile (job_ok w final fs) ps"

definition first_bad :: "world \<Rightarrow> string \<Rightarrow> files \<Rightarrow> proc list \<Rightarrow> proc option" where
  "first_bad w final fs ps =
     (case dropWhile (job_ok w final fs) ps of [] \<Rightarrow> None | b # rest \<Rightarrow> Some b)"

definition consumed :: "world \<Rightarrow> string \<Rightarrow> files \<Rightarrow> proc list \<Rightarrow> proc list" where
  "consumed w final fs ps =
     good_jobs w final fs ps
     @ (case first_bad w final fs ps of None \<Rightarrow> [] | Some b \<Rightarrow> [b])"

text \<open>
  The command that appends a segment, and the message the run ends with at the first
  job that is not good: \<open>git archive command failed\<close> for an exit status other
  than \<open>0\<close>, else the failure of the \<open>tar\<close> command.
\<close>

definition tar_cmd :: "string \<Rightarrow> proc \<Rightarrow> string list" where
  "tar_cmd final p = [''tar'', ''--concatenate'', ''-f'', final, userdata p]"

definition abort_message :: "world \<Rightarrow> string \<Rightarrow> files \<Rightarrow> proc \<Rightarrow> message" where
  "abort_message w final fs b =
     (if proc_returncode w (pid b) \<noteq> 0 then Archive_failed (proc_returncode w (pid b)) (args b)
      else Command_failed (fst (run_tar w final (userdata b) fs)) (tar_cmd final b))"

text \<open>
  What a file holds (nothing when it is missing), and the final file after the
  segments of a list of jobs were appended to it one after the other.
\<close>

definition content :: "files \<Rightarrow> string \<Rightarrow> segment list" where
  "content fs path = (case fs path of None \<Rightarrow> [] | Some a \<Rightarrow> a)"

definition appended :: "files \<Rightarrow> string \<Rightarrow> proc list \<Rightarrow> segment list option" where
  "appended fs final ps =
     (if ps = [] then fs final
      else Some (content fs final @ concat (map (\<lambda>p. content fs (userdata p)) ps)))"

text \<open>
  What a trace shows: the processes waited for, the commands run, the files whose
  removal was tried, the warnings and the fatal messages, each in order.
\<close>

fun waited :: "event list \<Rightarrow> nat list" where
  "waited [] = []"
| "waited (Waited k # evs) = k # waited evs"
| "waited (e # evs) = waited evs"

fun runs :: "event list \<Rightarrow> string list list" where
  "runs [] = []"
| "runs (Run cmd # evs) = cmd # runs evs"
| "runs (e # evs) = runs evs"

fun unlinks :: "event list \<Rightarrow> string list" where
  "unlinks [] = []"
| "unlinks (Unlink x # evs) = x # unlinks evs"
| "unlinks (e # evs) = unlinks evs"

fun warnings :: "event list \<Rightarrow> message list" where
  "warnings [] = []"
| "warnings (Warning x # evs) = x # warnings evs"
| "warnings (e # evs) = warnings evs"

fun fatals :: "event list \<Rightarrow> message list" where
  "fatals [] = []"
| "fatals (Fatal x # evs) = x # fatals evs"
| "fatals (e # evs) = fatals evs"

text \<open>
  What a good job does to the files and what the loop traces for it: the
  segment is appended to the final file and removed, or kept with a warning when the
  removal is refused. \<open>abort_events\<close> is what the loop traces for the first job that
  is not good: \<open>tar\<close> is run only when the process had exited with status \<open>0\<close>.
\<close>

definition step_files :: "world \<Rightarrow> string \<Rightarrow> files \<Rightarrow> proc \<Rightarrow> files" where
  "step_files w final fs p =
     (let fs2 = fs(final \<mapsto> content fs final @ content fs (userdata p))
      in if unlink_denied w (userdata p) then fs2 else fs2(userdata p := None))"

definition step_events :: "world \<Rightarrow> string \<Rightarrow> nat \<Rightarrow> nat \<Rightarrow> proc \<Rightarrow> event list" where
  "step_events w final nd nt p =
     [Info (Waiting_and_concatenating (nd + 1) nt), Waited (pid p),
      Run (tar_cmd final p), Unlink (userdata p)]
     @ (if unlink_denied w (userdata p) then [Warning (Cleanup_exception (userdata p))] else [])"

definition abort_events :: "world \<Rightarrow> string \<Rightarrow> nat \<Rightarrow> nat \<Rightarrow> files \<Rightarrow> proc \<Rightarrow> event list" where
  "abort_events w final nd nt fs b =
     [Info (Waiting_and_concatenating (nd + 1) nt), Waited (pid b)]
     @ (if proc_returncode w (pid b) \<noteq> 0 then [] else [Run (tar_cmd final b)])
     @ [Fatal (abort_message w final fs b)]"

text \<open>
  The trace and the result of the whole loop in closed form; \<open>nd\<close> and \<open>nt\<close> are
  \<open>done\<close> and \<open>total\<close> of the progress line.
\<close>

definition assembly_events ::
  "world \<Rightarrow> string \<Rightarrow> nat \<Rightarrow> nat \<Rightarrow> files \<Rightarrow> proc list \<Rightarrow> event list" where
  "assembly_events w final nd nt fs ps =
     concat (map (\<lambda>(i, p). step_events w final i nt p) (enumerate nd (good_jobs w final fs ps)))
     @ (case first_bad w final fs ps of
          None \<Rightarrow> []
        | Some b \<Rightarrow> abort_events w final (nd + length (good_jobs w final fs ps)) nt fs b)"

definition assembly_result :: "world \<Rightarrow> string \<Rightarrow> files \<Rightarrow> proc list \<Rightarrow> exc + unit" where
  "assembly_result w final fs ps =
     (case first_bad w final fs ps of
        None \<Rightarrow> Inr ()
      | Some b \<Rightarrow> Inl (RuntimeError (abort_message w final fs b)))"

section \<open>An example repository\<close>

text \<open>
  \<open>/top\<close> at \<open>r0\<close> links \<open>libs/foo\<close> (at \<open>r1\<close>, which links \<open>dep\<close> at \<open>r3\<close>) and
  \<open>old/bar\<close> (at \<open>r2\<close>). \<open>libs/foo\<close> and \<open>dep\<close> are initialised submodules;
  \<open>old/bar\<close> is not, and only the git-dir \<open>/old/bar.git\<close> has its commit.
\<close>

definition example_table :: "(string list \<times> int \<times> string) list" where
  "example_table =
     [([''git'', ''rev-parse'', ''HEAD''], 0, ''r0'' @ [CHR 0x0A]),
      ([''git'', ''rev-parse'', ''--show-toplevel''], 0, ''/top'' @ [CHR 0x0A]),
      ([''git'', ''rev-parse'', ''--absolute-git-dir''], 0, ''/top/.git'' @ [CHR 0x0A]),
      ([''git'', ''-C'', ''/top'', ''submodule'', ''foreach'', ''-q'', ''--recursive'',
        ''echo $name $sm_path $toplevel $(git rev-parse --absolute-git-dir)''], 0,
       ''foo libs/foo /top /top/.git/modules/foo'' @ [CHR 0x0A]
       @ ''dep dep /top/libs/foo /top/.git/modules/foo/modules/dep'' @ [CHR 0x0A]),
      ([''git'', ''--git-dir'', ''/top/.git'', ''ls-tree'', ''-r'', ''--full-tree'', ''r0''], 0,
       ''100644 blob b0'' @ [CHR 0x09] @ ''README'' @ [CHR 0x0A]
       @ ''160000 commit r1'' @ [CHR 0x09] @ ''libs/foo'' @ [CHR 0x0A]
       @ ''160000 commit r2'' @ [CHR 0x09] @ ''old/bar'' @ [CHR 0x0A]),
      ([''git'', ''--git-dir'', ''/top/.git/modules/foo'', ''rev-parse'', ''-q'', ''--verify'',
        ''r1^{commit}''], 0, ''r1'' @ [CHR 0x0A]),
      ([''git'', ''--git-dir'', ''/top/.git/modules/foo'', ''ls-tree'', ''-r'', ''--full-tree'',
        ''r1''], 0, ''160000 commit r3'' @ [CHR 0x09] @ ''dep'' @ [CHR 0x0A]),
      ([''git'', ''--git-dir'', ''/top/.git/modules/foo/modules/dep'', ''rev-parse'', ''-q'',
        ''--verify'', ''r3^{commit}''], 0, ''r3'' @ [CHR 0x0A]),
      ([''git'', ''--git-dir'', ''/top/.git/modules/foo/modules/dep'', ''ls-tree'', ''-r'',
        ''--full-tree'', ''r3''], 0, []),
      ([''git'', ''--git-dir'', ''/old/bar.git'', ''rev-parse'', ''-q'', ''--verify'',
        ''r2^{commit}''], 0, ''r2'' @ [CHR 0x0A]),
      ([''git'', ''--git-dir'', ''/old/bar.git'', ''ls-tree'', ''-r'', ''--full-tree'', ''r2''],
       0, [])]"

definition example_env :: git_env where
  "example_env =
     \<lparr>run_cmd = (\<lambda>cmd. case map_of example_table cmd of Some r \<Rightarrow> r | None \<Rightarrow> (1, [])),
      is_dir = (\<lambda>p. True)\<rparr>"

definition example_options :: options where
  "example_options =
     \<lparr>opt_tree_ish = None, opt_output = ''out.tar'', opt_format = None, opt_prefix = ''p/'',
      opt_nproc = 2, opt_lookup = Some [''/old/bar.git''], opt_depth = - 1, opt_dryrun = False\<rparr>"

text \<open>The collection \<open>main\<close> builds for these options.\<close>

definition example_gitdirs :: gitdir_collection where
  "example_gitdirs =
     [(''/top'', [PyPath (PosixPath ''/'' [''top'', ''.git''])]),
      (''/top/libs/foo'', [PyPath (PosixPath ''/'' [''top'', ''.git'', ''modules'', ''foo''])]),
      (''/top/libs/foo/dep'',
       [PyPath (PosixPath ''/'' [''top'', ''.git'', ''modules'', ''foo'', ''modules'', ''dep''])]),
      (''--lookup'', [PyPath (PosixPath ''/'' [''old'', ''bar.git''])])]"

text \<open>What the walk hands over in the example, with unlimited depth.\<close>

definition example_items :: "item list" where
  "example_items =
     [Yield (''/top'', PyStr ''/top/.git'', ''r0''),
      Yield (''/top/libs/foo'', PyPath (PosixPath ''/'' [''top'', ''.git'', ''modules'', ''foo'']), ''r1''),
      Yield (''/top/libs/foo/dep'',
             PyPath (PosixPath ''/'' [''top'', ''.git'', ''modules'', ''foo'', ''modules'', ''dep'']),
             ''r3''),
      Yield (''/top/old/bar'', PyPath (PosixPath ''/'' [''old'', ''bar.git'']), ''r2'')]"

text \<open>
  A repository whose revision \<open>r0\<close> links a submodule at the path \<open>'' lead''\<close>, a
  directory whose name begins with a space; the commit \<open>r1\<close> it pins is in the
  git-dir \<open>/sub.git\<close>, given with \<open>--lookup\<close>, and has no submodule of its own.
\<close>

definition spaced_tree :: "tree_entry list" where
  "spaced_tree =
     [\<lparr>entry_mode = ''100644'', entry_type = ''blob'', entry_object = ''b0'',
       entry_path = ''README''\<rparr>,
      \<lparr>entry_mode = ''160000'', entry_type = ''commit'', entry_object = ''r1'',
       entry_path = '' lead''\<rparr>]"

definition spaced_trees :: "pyval \<Rightarrow> string \<Rightarrow> tree_entry list option" where
  "spaced_trees gitdir rv =
     (if py_str gitdir = ''/top/.git'' \<and> rv = ''r0'' then Some spaced_tree
      else if py_str gitdir = ''/sub.git'' \<and> rv = ''r1'' then Some []
      else None)"

definition spaced_table :: "(string list \<times> int \<times> string) list" where
  "spaced_table =
     [([''git'', ''rev-parse'', ''HEAD''], 0, ''r0'' @ [CHR 0x0A]),
      ([''git'', ''rev-parse'', ''--show-toplevel''], 0, ''/top'' @ [CHR 0x0A]),
      ([''git'', ''rev-parse'', ''--absolute-git-dir''], 0, ''/top/.git'' @ [CHR 0x0A]),
      ([''git'', ''-C'', ''/top'', ''submodule'', ''foreach'', ''-q'', ''--recursive'',
        ''echo $name $sm_path $toplevel $(git rev-parse --absolute-git-dir)''], 0, []),
      ([''git'', ''--git-dir'', ''/top/.git'', ''ls-tree'', ''-r'', ''--full-tree'', ''r0''], 0,
       ls_tree_output spaced_tree),
      ([''git'', ''--git-dir'', ''/top/.git'', ''rev-parse'', ''-q'', ''--verify'',
        ''r1^{commit}''], 1, []),
      ([''git'', ''--git-dir'', ''/sub.git'', ''rev-parse'', ''-q'', ''--verify'',
        ''r1^{commit}''], 0, ''r1'' @ [CHR 0x0A]),
      ([''git'', ''--git-dir'', ''/sub.git'', ''ls-tree'', ''-r'', ''--full-tree'', ''r1''], 0,
       ls_tree_output [])]"

definition spaced_env :: git_env where
  "spaced_env =
     \<lparr>run_cmd = (\<lambda>cmd. case map_of spaced_table cmd of Some r \<Rightarrow> r | None \<Rightarrow> (1, [])),
      is_dir = (\<lambda>p. True)\<rparr>"

definition spaced_options :: options where
  "spaced_options =
     \<lparr>opt_tree_ish = None, opt_output = ''out.tar'', opt_format = None, opt_prefix = ''p/'',
      opt_nproc = 2, opt_lookup = Some [''/sub.git''], opt_depth = - 1, opt_dryrun = True\<rparr>"

definition spaced_gitdirs :: gitdir_collection where
  "spaced_gitdirs =
     [(''/top'', [PyPath (PosixPath ''/'' [''top'', ''.git''])]),
      (''--lookup'', [PyPath (PosixPath ''/'' [''sub.git''])])]"

text \<open>The first process runs longer than those started after it.\<close>

definition example_world :: world where
  "example_world =
     \<lparr>proc_duration = (\<lambda>k. Some (if k = 0 then 5 else 1)),
      proc_returncode = (\<lambda>k. 0),
      popen_error = (\<lambda>k cmd. None),
      failed_output = (\<lambda>k. None),
      tar_returncode = (\<lambda>final seg. 0),
      unlink_denied = (\<lambda>path. False)\<rparr>"

definition machine0 :: machine where
  "machine0 = \<lparr>files = Map.empty, clock = 0, launched = 0\<rparr>"

text \<open>
  Four segments to assemble: the third process exited with status \<open>3\<close> and left an
  empty file, and the removal of the second segment is refused.
\<close>

definition assembly_world :: world where
  "assembly_world =
     \<lparr>proc_duration = (\<lambda>k. Some (if k = 0 then 5 else 1)),
      proc_returncode = (\<lambda>k. if k = 2 then 3 else 0),
      popen_error = (\<lambda>k cmd. None),
      failed_output = (\<lambda>k. Some []),
      tar_returncode = (\<lambda>final seg. 0),
      unlink_denied = (\<lambda>path. path = ''out.tar.1'')\<rparr>"

definition assembly_jobs :: parallel_jobs where
  "assembly_jobs =
     \<lparr>pending =
        [\<lparr>pid = 0, args = [''git'', ''archive'', ''r0''], userdata = ''out.tar.0'', started = 0\<rparr>,
         \<lparr>pid = 1, args = [''git'', ''archive'', ''r1''], userdata = ''out.tar.1'', started = 0\<rparr>,
         \<lparr>pid = 2, args = [''git'', ''archive'', ''r2''], userdata = ''out.tar.2'', started = 0\<rparr>,
         \<lparr>pid = 3, args = [''git'', ''archive'', ''r3''], userdata = ''out.tar.3'', started = 0\<rparr>],
      nproc = 2\<rparr>"

definition assembly_machine :: machine where
  "assembly_machine =
     \<lparr>files = [''out.tar.0'' \<mapsto> [Archive_of ''/top/.git'' ''r0'' ''p/''],
                ''out.tar.1'' \<mapsto> [Archive_of ''/a.git'' ''r1'' ''p/a/''],
                ''out.tar.2'' \<mapsto> [],
                ''out.tar.3'' \<mapsto> [Archive_of ''/c.git'' ''r3'' ''p/c/'']],
      clock = 0, launched = 4\<rparr>"

section \<open>Properties of the collection of git-dirs\<close>

lemma map_of_dict_set: "map_of (dict_set k v m) = (map_of m)(k \<mapsto> v)"
  by (induction m) (auto simp: fun_eq_iff)

text \<open>With a \<open>Path\<close> as argument the membership test of \<open>add\<close> finds the git-dir
  it registered before.\<close>

lemma add_Path_again:
  "add h (PyPath p) (add h (PyPath p) gitdirs) = add h (PyPath p) gitdirs"
  by (auto simp: add_def setdefault_def map_of_dict_set Let_def split: option.splits)

text \<open>
  C7. The claim: no hint ever has the same git-dir twice, \<open>add\<close> is idempotent.
  The program calls \<open>add\<close> with a \<open>str\<close> for the top git-dir and for every
  \<open>--lookup\<close> argument; the test \<open>gitdir not in dirs\<close> then compares a \<open>str\<close> with
  the \<open>Path\<close> values stored, which never succeeds, and the git-dir is stored again.
  With \<open>--lookup /old/bar.git --lookup /old/bar.git\<close>:
\<close>

theorem add_str_registers_twice:
  "add (PyStr ''--lookup'') (PyStr ''/old/bar.git'')
     (add (PyStr ''--lookup'') (PyStr ''/old/bar.git'') []) =
     [(''--lookup'', [PyPath (PosixPath ''/'' [''old'', ''bar.git'']),
                     PyPath (PosixPath ''/'' [''old'', ''bar.git''])])]
   \<and> (case resolve example_env
              (example_options\<lparr>opt_lookup := Some [''/old/bar.git'', ''/old/bar.git'']\<rparr>) of
        Inr (top_rev, top_path, top_gitdir, gitdirs) \<Rightarrow> map_of gitdirs ''--lookup''
      | Inl x \<Rightarrow> None) =
     Some [PyPath (PosixPath ''/'' [''old'', ''bar.git'']),
           PyPath (PosixPath ''/'' [''old'', ''bar.git''])]"
  by code_simp

lemma first_valid_append:
  "first_valid env rv (xs @ ys) =
     (case first_valid env rv xs of Inr None \<Rightarrow> first_valid env rv ys | r \<Rightarrow> r)"
  by (induction xs) (auto split: sum.splits bool.splits option.splits)

lemma first_valid_all_concat:
  "first_valid_all env rv xss = first_valid env rv (concat xss)"
  by (induction xss) (auto simp: first_valid_append split: sum.splits option.splits)

lemma find_gitdir_flat:
  "find_gitdir env gitdirs path_hint rv =
     first_valid env rv (hinted_gitdirs gitdirs path_hint @ all_gitdirs gitdirs)"
  by (auto simp: find_gitdir_def hinted_gitdirs_def all_gitdirs_def first_valid_append
        first_valid_all_concat split: option.splits sum.splits)

lemma first_valid_None:
  "first_valid env rv xs = Inr None \<longleftrightarrow> (\<forall>g \<in> set xs. lacks_commit env rv g)"
  by (induction xs) (auto simp: lacks_commit_def split: sum.splits bool.splits)

lemma first_valid_Some:
  "first_valid env rv xs = Inr (Some g) \<Longrightarrow> g \<in> set xs \<and> contains_commit env rv g"
  by (induction xs) (auto simp: contains_commit_def split: sum.splits bool.splits)

lemma first_valid_find:
  "\<forall>g \<in> set xs. contains_commit env rv g \<or> lacks_commit env rv g \<Longrightarrow>
   first_valid env rv xs = Inr (List.find (contains_commit env rv) xs)"
  by (induction xs) (auto simp: contains_commit_def lacks_commit_def split: sum.splits bool.splits)

lemma hinted_subset: "set (hinted_gitdirs gitdirs h) \<subseteq> set (all_gitdirs gitdirs)"
proof
  fix x assume "x \<in> set (hinted_gitdirs gitdirs h)"
  then obtain ds where ds: "map_of gitdirs (py_str h) = Some ds" and x: "x \<in> set ds"
    by (cases "map_of gitdirs (py_str h)") (auto simp: hinted_gitdirs_def)
  from ds have "(py_str h, ds) \<in> set gitdirs" by (rule map_of_SomeD)
  with x show "x \<in> set (all_gitdirs gitdirs)"
    by (force simp: all_gitdirs_def)
qed

text \<open>
  C3. Where no check raises, \<open>find\<close> returns the first git-dir that contains the
  commit, looking through the git-dirs of the hint in the order they were added and
  then through the git-dirs of all hints, in the order of the \<open>dict\<close>; it returns
  \<open>None\<close> exactly when every registered git-dir lacks the commit; and a git-dir it
  returns is registered and contains the commit.
\<close>

theorem find_gitdir_first_containing:
  "((\<forall>g \<in> set (all_gitdirs gitdirs). contains_commit env rv g \<or> lacks_commit env rv g) \<longrightarrow>
      find_gitdir env gitdirs path_hint rv =
        Inr (List.find (contains_commit env rv)
               (hinted_gitdirs gitdirs path_hint @ all_gitdirs gitdirs)))
   \<and> (find_gitdir env gitdirs path_hint rv = Inr None \<longleftrightarrow>
        (\<forall>g \<in> set (all_gitdirs gitdirs). lacks_commit env rv g))
   \<and> (\<forall>g. find_gitdir env gitdirs path_hint rv = Inr (Some g) \<longrightarrow>
        g \<in> set (all_gitdirs gitdirs) \<and> contains_commit env rv g)"
proof (intro conjI impI allI)
  assume h: "\<forall>g \<in> set (all_gitdirs gitdirs). contains_commit env rv g \<or> lacks_commit env rv g"
  have "\<forall>g \<in> set (hinted_gitdirs gitdirs path_hint @ all_gitdirs gitdirs).
          contains_commit env rv g \<or> lacks_commit env rv g"
    using h hinted_subset [of gitdirs path_hint] by auto
  then show "find_gitdir env gitdirs path_hint rv =
      Inr (List.find (contains_commit env rv)
             (hinted_gitdirs gitdirs path_hint @ all_gitdirs gitdirs))"
    unfolding find_gitdir_flat by (rule first_valid_find)
next
  show "find_gitdir env gitdirs path_hint rv = Inr None \<longleftrightarrow>
        (\<forall>g \<in> set (all_gitdirs gitdirs). lacks_commit env rv g)"
    unfolding find_gitdir_flat first_valid_None
    using hinted_subset [of gitdirs path_hint] by auto
next
  fix g
  assume "find_gitdir env gitdirs path_hint rv = Inr (Some g)"
  then have "g \<in> set (hinted_gitdirs gitdirs path_hint @ all_gitdirs gitdirs)
             \<and> contains_commit env rv g"
    unfolding find_gitdir_flat by (rule first_valid_Some)
  then show "g \<in> set (all_gitdirs gitdirs)" and "contains_commit env rv g"
    using hinted_subset [of gitdirs path_hint] by auto
qed

text \<open>In the example, \<open>r2\<close> is found by the scan of all git-dirs (its hint is not
  registered), and \<open>r9\<close> is in no git-dir.\<close>

theorem find_gitdir_first_containing_witness:
  "list_all (\<lambda>g. contains_commit example_env ''r2'' g \<or> lacks_commit example_env ''r2'' g)
     (all_gitdirs example_gitdirs)
   \<and> find_gitdir example_env example_gitdirs (PyStr ''/top/old/bar'') ''r2'' =
       Inr (Some (PyPath (PosixPath ''/'' [''old'', ''bar.git''])))
   \<and> list_all (lacks_commit example_env ''r9'') (all_gitdirs example_gitdirs)
   \<and> find_gitdir example_env example_gitdirs (PyStr ''/top/old/bar'') ''r9'' = Inr None"
proof -
  have h2: "\<forall>g \<in> set (all_gitdirs example_gitdirs).
              contains_commit example_env ''r2'' g \<or> lacks_commit example_env ''r2'' g"
    by code_simp
  have f2: "List.find (contains_commit example_env ''r2'')
              (hinted_gitdirs example_gitdirs (PyStr ''/top/old/bar'') @ all_gitdirs example_gitdirs)
            = Some (PyPath (PosixPath ''/'' [''old'', ''bar.git'']))"
    by code_simp
  have h9: "\<forall>g \<in> set (all_gitdirs example_gitdirs). lacks_commit example_env ''r9'' g"
    by code_simp
  from find_gitdir_first_containing
         [of example_gitdirs example_env "''r2''" "PyStr ''/top/old/bar''"] h2 f2
  have "find_gitdir example_env example_gitdirs (PyStr ''/top/old/bar'') ''r2'' =
          Inr (Some (PyPath (PosixPath ''/'' [''old'', ''bar.git''])))"
    by simp
  moreover
  from find_gitdir_first_containing
         [of example_gitdirs example_env "''r9''" "PyStr ''/top/old/bar''"] h9
  have "find_gitdir example_env example_gitdirs (PyStr ''/top/old/bar'') ''r9'' = Inr None"
    by blast
  ultimately show ?thesis using h2 h9 by (simp add: list_all_iff)
qed

section \<open>Properties of the walk\<close>

lemma yields_append: "yields (xs @ ys) = yields xs @ yields ys"
  by (induction xs rule: yields.induct) auto

lemma yields_map_Out: "yields (map Out evs) = []"
  by (induction evs) auto

lemma not_found_report_yields: "yields (fst (not_found_report env tp g r path rv)) = []"
  by (auto simp: not_found_report_def Let_def split: sum.splits option.splits)

lemma not_found_report_outcome:
  "\<exists>e. snd (not_found_report env tp g r path rv) = Raised e"
  by (auto simp: not_found_report_def Let_def split: sum.splits option.splits)

lemma iter_entries_depth_0:
  "yields (fst (iter_entries recurse env gitdirs tp g r 0 entries)) = []
   \<and> snd (iter_entries recurse env gitdirs tp g r 0 entries) \<noteq> Out_of_fuel"
  by (induction recurse env gitdirs tp g r "0::int" entries rule: iter_entries.induct)
     (auto split: prod.splits)

lemma iter_entries_tree:
  assumes IH: "\<And>tp g r t. sub tp g r = Some t \<Longrightarrow>
             snd (recurse tp g r (d - 1)) = Finished \<and> yields (fst (recurse tp g r (d - 1))) = preorder t"
      and d: "d \<noteq> 0"
  shows "commit_entries entries = Some links \<Longrightarrow>
         those (map (child_of sub env gitdirs tp) links) = Some ts \<Longrightarrow>
         snd (iter_entries recurse env gitdirs tp g r d entries) = Finished
         \<and> yields (fst (iter_entries recurse env gitdirs tp g r d entries)) = concat (map preorder ts)"
proof (induction entries arbitrary: links ts)
  case Nil
  then show ?case by auto
next
  case (Cons e entries)
  show ?case
  proof (cases e)
    case (Inl x)
    with Cons.prems show ?thesis by simp
  next
    case (Inr o1)
    show ?thesis
    proof (cases o1)
      case None
      with Inr Cons show ?thesis by simp
    next
      case (Some l)
      obtain path rv where l: "l = (path, rv)" by (cases l)
      from Cons.prems(1) Inr Some obtain links' where
        links: "links = l # links'" and ce: "commit_entries entries = Some links'"
        by auto
      from Cons.prems(2) links obtain t ts' where
        t: "child_of sub env gitdirs tp l = Some t" and
        ts': "those (map (child_of sub env gitdirs tp) links') = Some ts'" and
        ts: "ts = t # ts'"
        by (auto split: option.splits)
      from t l obtain g' where
        wf: "path \<noteq> []" "hd path \<noteq> CHR ''/''" "last path \<noteq> CHR ''/''" and
        fnd: "find_gitdir env gitdirs (PyStr (tp @ ''/'' @ path)) rv = Inr (Some g')" and
        sub: "sub (tp @ ''/'' @ path) g' rv = Some t"
        by (auto simp: child_of_def split: if_splits sum.splits option.splits)
      from IH [OF sub] have
        r1: "snd (recurse (tp @ ''/'' @ path) g' rv (d - 1)) = Finished" and
        r2: "yields (fst (recurse (tp @ ''/'' @ path) g' rv (d - 1))) = preorder t"
        by auto
      from Cons.IH [OF ce ts'] have
        i1: "snd (iter_entries recurse env gitdirs tp g r d entries) = Finished" and
        i2: "yields (fst (iter_entries recurse env gitdirs tp g r d entries)) = concat (map preorder ts')"
        by auto
      show ?thesis
        using Inr Some l d wf fnd r1 r2 i1 i2 ts
        by (auto simp: yields_append split: prod.splits outcome.splits)
    qed
  qed
qed

lemma iter_entries_depth_0_Finished:
  "commit_entries entries = Some links \<Longrightarrow>
   snd (iter_entries recurse env gitdirs tp g r 0 entries) = Finished"
  by (induction entries arbitrary: links rule: commit_entries.induct) (auto split: prod.splits)

lemma walk_tree:
  "revision_tree n env gitdirs tp g r d = Some t \<Longrightarrow>
   snd (recursively_iter_repos n env gitdirs tp g r d) = Finished
   \<and> yields (fst (recursively_iter_repos n env gitdirs tp g r d)) = preorder t"
proof (induction n arbitrary: tp g r d t)
  case 0
  then show ?case by simp
next
  case (Suc n)
  from Suc.prems obtain entries links where
    it: "iter_git_submodules_at_rev env g r = Inr entries" and
    ce: "commit_entries entries = Some links"
    by (auto simp: gitlinks_def split: option.splits sum.splits)
  show ?case
  proof (cases "d = 0")
    case True
    with Suc.prems it ce have "t = Repo (tp, g, r) []" by (simp add: gitlinks_def)
    with True it ce show ?thesis
      using iter_entries_depth_0 [of "recursively_iter_repos n env gitdirs" env gitdirs tp g r entries]
            iter_entries_depth_0_Finished [OF ce, of "recursively_iter_repos n env gitdirs" env gitdirs tp g r]
      by (auto split: prod.splits)
  next
    case False
    with Suc.prems it ce obtain ts where
      ts: "those (map (child_of (\<lambda>tp g r. revision_tree n env gitdirs tp g r (d - 1)) env gitdirs tp) links) = Some ts"
      and t: "t = Repo (tp, g, r) ts"
      by (auto simp: gitlinks_def)
    have "snd (iter_entries (recursively_iter_repos n env gitdirs) env gitdirs tp g r d entries) = Finished
         \<and> yields (fst (iter_entries (recursively_iter_repos n env gitdirs) env gitdirs tp g r d entries))
             = concat (map preorder ts)"
      by (rule iter_entries_tree [OF _ False ce ts]) (rule Suc.IH)
    with it t show ?thesis by (auto split: prod.splits)
  qed
qed

lemma iter_entries_Finished_tree:
  assumes IH: "\<And>tp g r. snd (recurse tp g r (d - 1)) = Finished \<Longrightarrow> sub tp g r \<noteq> None"
      and d: "d \<noteq> 0"
  shows "snd (iter_entries recurse env gitdirs tp g r d entries) = Finished \<Longrightarrow>
         \<exists>links ts. commit_entries entries = Some links
                   \<and> those (map (child_of sub env gitdirs tp) links) = Some ts"
proof (induction entries)
  case Nil
  then show ?case by simp
next
  case (Cons e entries)
  show ?case
  proof (cases e)
    case (Inl x)
    with Cons.prems show ?thesis by simp
  next
    case (Inr o1)
    show ?thesis
    proof (cases o1)
      case None
      with Inr Cons show ?thesis by simp
    next
      case (Some l)
      obtain path rv where l: "l = (path, rv)" by (cases l)
      from Cons.prems Inr Some l d obtain g' where
        wf: "path \<noteq> []" "hd path \<noteq> CHR ''/''" "last path \<noteq> CHR ''/''" and
        fnd: "find_gitdir env gitdirs (PyStr (tp @ ''/'' @ path)) rv = Inr (Some g')" and
        r1: "snd (recurse (tp @ ''/'' @ path) g' rv (d - 1)) = Finished" and
        i1: "snd (iter_entries recurse env gitdirs tp g r d entries) = Finished"
        using not_found_report_outcome [of env tp g r path rv]
        by (auto split: if_splits sum.splits option.splits prod.splits outcome.splits)
      from IH [OF r1] obtain t where t: "sub (tp @ ''/'' @ path) g' rv = Some t" by auto
      from Cons.IH [OF i1] obtain links ts where
        "commit_entries entries = Some links"
        "those (map (child_of sub env gitdirs tp) links) = Some ts" by auto
      then have "commit_entries entries = Some links
                 \<and> those (map (child_of sub env gitdirs tp) links) = Some ts" by simp
      moreover from l wf fnd t have "child_of sub env gitdirs tp l = Some t"
        by (simp add: child_of_def)
      ultimately show ?thesis using Inr Some by simp
    qed
  qed
qed

lemma iter_entries_depth_0_entries:
  "snd (iter_entries recurse env gitdirs tp g r 0 entries) = Finished \<Longrightarrow>
   \<exists>links. commit_entries entries = Some links"
  by (induction entries rule: commit_entries.induct) (auto split: prod.splits)

lemma walk_Finished_tree:
  "snd (recursively_iter_repos n env gitdirs tp g r d) = Finished \<Longrightarrow>
   revision_tree n env gitdirs tp g r d \<noteq> None"
proof (induction n arbitrary: tp g r d)
  case 0
  then show ?case by simp
next
  case (Suc n)
  from Suc.prems obtain entries where
    it: "iter_git_submodules_at_rev env g r = Inr entries" and
    fin: "snd (iter_entries (recursively_iter_repos n env gitdirs) env gitdirs tp g r d entries) = Finished"
    by (auto split: sum.splits prod.splits)
  show ?case
  proof (cases "d = 0")
    case True
    with fin iter_entries_depth_0_entries [of "recursively_iter_repos n env gitdirs" env gitdirs tp g r entries]
    show ?thesis using it by (auto simp: gitlinks_def)
  next
    case False
    have "\<exists>links ts. commit_entries entries = Some links
            \<and> those (map (child_of (\<lambda>tp g r. revision_tree n env gitdirs tp g r (d - 1))
                             env gitdirs tp) links) = Some ts"
      by (rule iter_entries_Finished_tree [OF _ False fin]) (rule Suc.IH)
    with it False show ?thesis by (auto simp: gitlinks_def)
  qed
qed

lemma iter_entries_fuel:
  assumes "d \<noteq> 0 \<Longrightarrow> (\<And>tp g r. snd (recurse tp g r (d - 1)) \<noteq> Out_of_fuel)"
  shows "snd (iter_entries recurse env gitdirs tp g r d entries) \<noteq> Out_of_fuel"
proof (induction entries)
  case Nil
  then show ?case by simp
next
  case (Cons e entries)
  show ?case
  proof (cases e)
    case (Inl x)
    then show ?thesis by simp
  next
    case (Inr o1)
    show ?thesis
    proof (cases o1)
      case None
      with Inr Cons show ?thesis by simp
    next
      case (Some l)
      obtain path rv where l: "l = (path, rv)" by (cases l)
      show ?thesis
      proof (cases "d = 0")
        case True
        with Inr Some l Cons show ?thesis by (auto split: prod.splits)
      next
        case False
        from assms [OF False] have
          "\<And>g' x. recurse (tp @ ''/'' @ path) g' rv (d - 1) \<noteq> (x, Out_of_fuel)"
          by (metis snd_conv)
        with Inr Some l Cons False show ?thesis
          using not_found_report_outcome [of env tp g r path rv]
          by (auto split: prod.splits sum.splits option.splits outcome.splits)
      qed
    qed
  qed
qed

lemma walk_fuel_bounded:
  "0 \<le> d \<Longrightarrow> nat d < n \<Longrightarrow> snd (recursively_iter_repos n env gitdirs tp g r d) \<noteq> Out_of_fuel"
proof (induction n arbitrary: tp g r d)
  case 0
  then show ?case by simp
next
  case (Suc n)
  have "snd (iter_entries (recursively_iter_repos n env gitdirs) env gitdirs tp g r d entries)
          \<noteq> Out_of_fuel" for entries
  proof (rule iter_entries_fuel)
    fix tp' g' r'
    assume "d \<noteq> 0"
    with Suc.prems have "0 \<le> d - 1" "nat (d - 1) < n" by auto
    then show "snd (recursively_iter_repos n env gitdirs tp' g' r' (d - 1)) \<noteq> Out_of_fuel"
      by (rule Suc.IH)
  qed
  then have "iter_entries (recursively_iter_repos n env gitdirs) env gitdirs tp g r d entries
               \<noteq> (x, Out_of_fuel)" for entries x
    by (metis snd_conv)
  then show ?case by (auto split: sum.splits prod.splits)
qed

lemma iter_entries_more_fuel:
  assumes "\<And>tp g r dd. snd (rec1 tp g r dd) \<noteq> Out_of_fuel \<Longrightarrow> rec2 tp g r dd = rec1 tp g r dd"
  shows "snd (iter_entries rec1 env gitdirs tp g r d entries) \<noteq> Out_of_fuel \<Longrightarrow>
         iter_entries rec2 env gitdirs tp g r d entries = iter_entries rec1 env gitdirs tp g r d entries"
proof (induction entries)
  case Nil
  then show ?case by simp
next
  case (Cons e entries)
  show ?case
  proof (cases e)
    case (Inl x)
    then show ?thesis by simp
  next
    case (Inr o1)
    show ?thesis
    proof (cases o1)
      case None
      with Inr Cons show ?thesis by simp
    next
      case (Some l)
      obtain path rv where l: "l = (path, rv)" by (cases l)
      show ?thesis
      proof (cases "d = 0")
        case True
        with Inr Some l Cons show ?thesis by (auto split: prod.splits)
      next
        case False
        show ?thesis
        proof (cases "find_gitdir env gitdirs (PyStr (tp @ ''/'' @ path)) rv")
          case (Inl x)
          with Inr Some l False show ?thesis by simp
        next
          case fnd: (Inr og)
          show ?thesis
          proof (cases og)
            case None
            with fnd Inr Some l False show ?thesis by simp
          next
            case (Some g')
            obtain items1 r1 where rc: "rec1 (tp @ ''/'' @ path) g' rv (d - 1) = (items1, r1)"
              by (cases "rec1 (tp @ ''/'' @ path) g' rv (d - 1)")
            show ?thesis
            proof (cases "path = [] \<or> hd path = CHR ''/'' \<or> last path = CHR ''/''")
              case True
              with Inr \<open>o1 = Some l\<close> l False show ?thesis by auto
            next
              case wf: False
              from Cons.prems Inr \<open>o1 = Some l\<close> l False fnd Some rc wf
              have nf: "r1 \<noteq> Out_of_fuel"
                by (auto split: outcome.splits prod.splits)
              with assms [of "tp @ ''/'' @ path" g' rv "d - 1"] rc
              have rc2: "rec2 (tp @ ''/'' @ path) g' rv (d - 1) = (items1, r1)" by simp
              show ?thesis
              proof (cases r1)
                case Finished
                with Cons.prems Inr \<open>o1 = Some l\<close> l False fnd Some rc wf
                have "snd (iter_entries rec1 env gitdirs tp g r d entries) \<noteq> Out_of_fuel"
                  by (auto split: prod.splits)
                from Cons.IH [OF this] Finished Inr \<open>o1 = Some l\<close> l False fnd Some rc rc2 wf
                show ?thesis by simp
              next
                case (Raised x)
                with Inr \<open>o1 = Some l\<close> l False fnd Some rc rc2 wf show ?thesis by simp
              next
                case Out_of_fuel
                with nf show ?thesis by simp
              qed
            qed
          qed
        qed
      qed
    qed
  qed
qed

lemma walk_Suc_fuel:
  "snd (recursively_iter_repos n env gitdirs tp g r d) \<noteq> Out_of_fuel \<Longrightarrow>
   recursively_iter_repos (Suc n) env gitdirs tp g r d = recursively_iter_repos n env gitdirs tp g r d"
proof (induction n arbitrary: tp g r d)
  case 0
  then show ?case by simp
next
  case (Suc n)
  show ?case
  proof (cases "iter_git_submodules_at_rev env g r")
    case (Inl x)
    then show ?thesis by (auto split: prod.splits)
  next
    case (Inr entries)
    with Suc.prems have
      "snd (iter_entries (recursively_iter_repos n env gitdirs) env gitdirs tp g r d entries) \<noteq> Out_of_fuel"
      by (auto split: prod.splits)
    then have "iter_entries (recursively_iter_repos (Suc n) env gitdirs) env gitdirs tp g r d entries
             = iter_entries (recursively_iter_repos n env gitdirs) env gitdirs tp g r d entries"
      by (rule iter_entries_more_fuel [rotated]) (rule Suc.IH)
    with Inr show ?thesis by (simp del: iter_entries.simps)
  qed
qed

lemma walk_more_fuel:
  "snd (recursively_iter_repos n env gitdirs tp g r d) \<noteq> Out_of_fuel \<Longrightarrow> n \<le> k \<Longrightarrow>
   recursively_iter_repos k env gitdirs tp g r d = recursively_iter_repos n env gitdirs tp g r d"
proof (induction k)
  case 0
  then show ?case by simp
next
  case (Suc k)
  show ?case
  proof (cases "n = Suc k")
    case True
    then show ?thesis by simp
  next
    case False
    with Suc.prems have "n \<le> k" by simp
    with Suc have eq: "recursively_iter_repos k env gitdirs tp g r d = recursively_iter_repos n env gitdirs tp g r d"
      by simp
    with Suc.prems(1) have "snd (recursively_iter_repos k env gitdirs tp g r d) \<noteq> Out_of_fuel" by simp
    from walk_Suc_fuel [OF this] eq show ?thesis by simp
  qed
qed



text \<open>
  The walk against the tree of the revision as the program reads the listings: when
  that tree exists within \<open>max_depth\<close>, the walk ends normally and yields exactly
  its nodes, each once, in pre-order: a node before the subtrees of its children, the
  children in the order of the listing, the whole subtree of a child before the next
  child. The walk ends normally only when that tree exists, and with a depth
  \<open>d \<ge> 0\<close> it never goes deeper than \<open>d + 1\<close> calls. The walk takes no argument
  that depends on the jobs.
\<close>

lemma walk_preorder_as_read:
  "(revision_tree n env gitdirs tp g r d = Some t \<longrightarrow> n \<le> k \<longrightarrow>
       snd (recursively_iter_repos k env gitdirs tp g r d) = Finished
       \<and> yields (fst (recursively_iter_repos k env gitdirs tp g r d)) = preorder t)
   \<and> (snd (recursively_iter_repos n env gitdirs tp g r d) = Finished \<longrightarrow>
        revision_tree n env gitdirs tp g r d \<noteq> None)
   \<and> (0 \<le> d \<longrightarrow> nat d < n \<longrightarrow>
        snd (recursively_iter_repos n env gitdirs tp g r d) \<noteq> Out_of_fuel)"
proof (intro conjI impI)
  assume t: "revision_tree n env gitdirs tp g r d = Some t" and k: "n \<le> k"
  from walk_tree [OF t] have
    w: "snd (recursively_iter_repos n env gitdirs tp g r d) = Finished
        \<and> yields (fst (recursively_iter_repos n env gitdirs tp g r d)) = preorder t" .
  then have "snd (recursively_iter_repos n env gitdirs tp g r d) \<noteq> Out_of_fuel" by simp
  from walk_more_fuel [OF this k] w
  show "snd (recursively_iter_repos k env gitdirs tp g r d) = Finished"
   and "yields (fst (recursively_iter_repos k env gitdirs tp g r d)) = preorder t"
    by simp_all
next
  assume "snd (recursively_iter_repos n env gitdirs tp g r d) = Finished"
  then show "revision_tree n env gitdirs tp g r d \<noteq> None" by (rule walk_Finished_tree)
next
  assume "0 \<le> d" "nat d < n"
  then show "snd (recursively_iter_repos n env gitdirs tp g r d) \<noteq> Out_of_fuel"
    by (rule walk_fuel_bounded)
qed

lemma walk_preorder_as_read_example:
  "revision_tree 2 example_env example_gitdirs ''/top'' (PyStr ''/top/.git'') ''r0'' 1 =
     Some (Repo (''/top'', PyStr ''/top/.git'', ''r0'')
            [Repo (''/top/libs/foo'',
                   PyPath (PosixPath ''/'' [''top'', ''.git'', ''modules'', ''foo'']), ''r1'') [],
             Repo (''/top/old/bar'', PyPath (PosixPath ''/'' [''old'', ''bar.git'']), ''r2'') []])
   \<and> snd (recursively_iter_repos 2 example_env example_gitdirs ''/top'' (PyStr ''/top/.git'') ''r0'' 1)
       = Finished
   \<and> yields (fst (recursively_iter_repos 2 example_env example_gitdirs ''/top''
                    (PyStr ''/top/.git'') ''r0'' 1)) =
       [(''/top'', PyStr ''/top/.git'', ''r0''),
        (''/top/libs/foo'', PyPath (PosixPath ''/'' [''top'', ''.git'', ''modules'', ''foo'']), ''r1''),
        (''/top/old/bar'', PyPath (PosixPath ''/'' [''old'', ''bar.git'']), ''r2'')]
   \<and> revision_tree 2 example_env example_gitdirs ''/top'' (PyStr ''/top/.git'') ''r0'' 1 \<noteq> None"
proof -
  have t: "revision_tree 2 example_env example_gitdirs ''/top'' (PyStr ''/top/.git'') ''r0'' 1 =
     Some (Repo (''/top'', PyStr ''/top/.git'', ''r0'')
            [Repo (''/top/libs/foo'',
                   PyPath (PosixPath ''/'' [''top'', ''.git'', ''modules'', ''foo'']), ''r1'') [],
             Repo (''/top/old/bar'', PyPath (PosixPath ''/'' [''old'', ''bar.git'']), ''r2'') []])"
    by code_simp
  from walk_preorder_as_read
         [of 2 example_env example_gitdirs "''/top''" "PyStr ''/top/.git''" "''r0''" 1 _ 2] t
  show ?thesis by simp
qed

text \<open>
  C2. The revision \<open>r0\<close> of the repository \<open>/top\<close> has one gitlink, at the path
  \<open>'' lead''\<close>, and \<open>git ls-tree\<close> prints its tree as the format says. The tree of
  repositories has the root and the node \<open>/top/ lead\<close>. The walk ends normally and
  yields the root and a node \<open>/top/lead\<close>, a path at which the tree has no entry:
  \<open>line.split(maxsplit=3)\<close> drops the white space that follows the tabulator (the
  source marks the line \<open>FIXME fail if path begins with a space!\<close>). What the walk
  yields is not the pre-order of the tree, and \<open>main\<close> archives the submodule under
  the prefix \<open>p/lead/\<close>.
\<close>

theorem walk_misreads_leading_space:
  "snd (run_cmd spaced_env
          [''git'', ''--git-dir'', ''/top/.git'', ''ls-tree'', ''-r'', ''--full-tree'', ''r0''])
     = ls_tree_output spaced_tree
   \<and> snd (run_cmd spaced_env
          [''git'', ''--git-dir'', ''/sub.git'', ''ls-tree'', ''-r'', ''--full-tree'', ''r1''])
     = ls_tree_output []
   \<and> resolve spaced_env spaced_options = Inr (''r0'', ''/top'', ''/top/.git'', spaced_gitdirs)
   \<and> tree_gitlinks spaced_tree = [('' lead'', ''r1'')]
   \<and> gitlink_tree 2 spaced_trees spaced_env spaced_gitdirs ''/top'' (PyStr ''/top/.git'') ''r0''
         (- 1)
       = Some (Repo (''/top'', PyStr ''/top/.git'', ''r0'')
                [Repo (''/top/ lead'', PyPath (PosixPath ''/'' [''sub.git'']), ''r1'') []])
   \<and> recursively_iter_repos 2 spaced_env spaced_gitdirs ''/top'' (PyStr ''/top/.git'') ''r0''
         (- 1)
       = ([Yield (''/top'', PyStr ''/top/.git'', ''r0''),
           Yield (''/top/lead'', PyPath (PosixPath ''/'' [''sub.git'']), ''r1'')], Finished)
   \<and> Some (yields (fst (recursively_iter_repos 2 spaced_env spaced_gitdirs ''/top''
                          (PyStr ''/top/.git'') ''r0'' (- 1))))
       \<noteq> map_option preorder
           (gitlink_tree 2 spaced_trees spaced_env spaced_gitdirs ''/top'' (PyStr ''/top/.git'')
              ''r0'' (- 1))
   \<and> map_option (\<lambda>(evs, r, m). (evs, r))
         (main 3 spaced_env example_world spaced_options machine0)
       = Some ([Info (Dry_run 1 ''p/''), Info (Dry_run 2 ''p/lead/''), Info Dry_run_done],
               Inr 0)"
  by code_simp



lemma not_found_report_exit_0:
  "git_config env None (Some (top_rev @ '':.gitmodules'')) (Some top_gitdir) = Inr c \<Longrightarrow>
   snd (not_found_report env tp top_gitdir top_rev path rv) = Raised (SystemExit 0)"
  by (auto simp: not_found_report_def Let_def split: option.splits)

text \<open>
  C1. The claim: a submodule whose commit is in no registered git-dir ends the run
  with a non-zero exit status, after a diagnostic, and the walk yields nothing more.
  The walk prints the diagnostic and yields nothing more, but it ends with
  \<open>sys.exit(0)\<close>. In the example run without \<open>--lookup\<close>, the commit \<open>r2\<close> of
  \<open>old/bar\<close> is nowhere: three jobs are started, the error is printed, and the exit
  status is \<open>0\<close>.
\<close>

theorem unresolved_submodule_exit_status_0:
  "map_option (\<lambda>(evs, r, m). (evs, r, exit_status r))
     (main 3 example_env example_world (example_options\<lparr>opt_lookup := None\<rparr>) machine0) =
   Some ([Info (Launching 1 ''p/''),
          Popen 0 [''git'', ''--git-dir'', ''/top/.git'', ''archive'', ''--format'', ''tar'',
                   ''--output'', ''out.tar.0'', ''r0'', ''--prefix'', ''p/''],
          Info (Launching 2 ''p/libs/foo/''),
          Popen 1 [''git'', ''--git-dir'', ''/top/.git/modules/foo'', ''archive'', ''--format'',
                   ''tar'', ''--output'', ''out.tar.1'', ''r1'', ''--prefix'', ''p/libs/foo/''],
          Info (Launching 3 ''p/libs/foo/dep/''),
          Popen 2 [''git'', ''--git-dir'', ''/top/.git/modules/foo/modules/dep'', ''archive'',
                   ''--format'', ''tar'', ''--output'', ''out.tar.2'', ''r3'', ''--prefix'',
                   ''p/libs/foo/dep/''],
          Error (Could_not_find ''/top/old/bar'' ''r2'' ''old/bar'' ''/top'' ''/top/.git'' ''r0'')],
         Inl (SystemExit 0), 0)"
  by code_simp

section \<open>Properties of main\<close>

lemma endswith_both:
  assumes "endswith s p" "endswith s q" "length p \<le> length q"
  shows "endswith q p"
proof -
  from assms have p: "drop (length s - length p) s = p" and q: "drop (length s - length q) s = q"
    and lq: "length q \<le> length s"
    by (auto simp: endswith_def)
  have "drop (length q - length p) q = drop (length q - length p) (drop (length s - length q) s)"
    using q by simp
  also have "\<dots> = drop (length s - length p) s"
    using assms(3) lq by simp
  finally show ?thesis using p assms(3) by (simp add: endswith_def)
qed

lemma tar_gz_not_others:
  "endswith s ''.tar.gz'' \<Longrightarrow> \<not> endswith s ''.tar'' \<and> \<not> endswith s ''.tgz'' \<and> \<not> endswith s ''.zip''"
  using endswith_both [of s "''.tar''" "''.tar.gz''"] endswith_both [of s "''.tgz''" "''.tar.gz''"]
        endswith_both [of s "''.zip''" "''.tar.gz''"]
  by (auto simp: endswith_def)

lemma tar_not_others:
  "endswith s ''.tar'' \<Longrightarrow> \<not> endswith s ''.tgz'' \<and> \<not> endswith s ''.zip''"
  using endswith_both [of s "''.tar''" "''.tgz''"] endswith_both [of s "''.tar''" "''.zip''"]
  by (auto simp: endswith_def)

lemma tgz_not_zip: "endswith s ''.tgz'' \<Longrightarrow> \<not> endswith s ''.zip''"
  using endswith_both [of s "''.tgz''" "''.zip''"]
  by (auto simp: endswith_def)

text \<open>
  C9. Without \<open>--format\<close> the format is the extension of the output path, among
  \<open>tar.gz\<close>, \<open>tar\<close>, \<open>tgz\<close> and \<open>zip\<close> tested in that order (at most one of them
  matches); a format that was given is kept. Every format but \<open>tar\<close>, also none at
  all, ends \<open>main\<close> with the fatal error and the exit status \<open>1\<close>: nothing else is
  printed, no file or process is touched, and the result depends on no git query.
\<close>

theorem unsupported_format_is_fatal:
  "(opt_format opt = None \<longrightarrow>
      infer_format opt =
        (if endswith (opt_output opt) ''.tar.gz'' then Some ''tar.gz''
         else if endswith (opt_output opt) ''.tar'' then Some ''tar''
         else if endswith (opt_output opt) ''.tgz'' then Some ''tgz''
         else if endswith (opt_output opt) ''.zip'' then Some ''zip''
         else None))
   \<and> (\<forall>f. opt_format opt = Some f \<longrightarrow> infer_format opt = Some f)
   \<and> (infer_format opt \<noteq> Some ''tar'' \<longrightarrow>
        main n env w opt m =
          Some ([Fatal (Unsupported_format (infer_format opt))],
                Inl (RuntimeError (Unsupported_format (infer_format opt))), m)
        \<and> exit_status (Inl (RuntimeError (Unsupported_format (infer_format opt)))) = 1)"
proof (intro conjI impI allI)
  assume "opt_format opt = None"
  then show "infer_format opt =
        (if endswith (opt_output opt) ''.tar.gz'' then Some ''tar.gz''
         else if endswith (opt_output opt) ''.tar'' then Some ''tar''
         else if endswith (opt_output opt) ''.tgz'' then Some ''tgz''
         else if endswith (opt_output opt) ''.zip'' then Some ''zip''
         else None)"
    using tar_gz_not_others [of "opt_output opt"] tar_not_others [of "opt_output opt"]
          tgz_not_zip [of "opt_output opt"]
    by (auto simp: infer_format_def)
next
  fix f assume "opt_format opt = Some f"
  then show "infer_format opt = Some f" by (simp add: infer_format_def)
next
  assume "infer_format opt \<noteq> Some ''tar''"
  then show "main n env w opt m =
          Some ([Fatal (Unsupported_format (infer_format opt))],
                Inl (RuntimeError (Unsupported_format (infer_format opt))), m)"
    by (cases "infer_format opt") (auto simp: main_def SUPPORTED_FORMAT_def)
next
  show "exit_status (Inl (RuntimeError (Unsupported_format (infer_format opt)))) = 1" by simp
qed

theorem unsupported_format_is_fatal_witness:
  "opt_format (example_options\<lparr>opt_output := ''out.tar.gz''\<rparr>) = None
   \<and> infer_format (example_options\<lparr>opt_output := ''out.tar.gz''\<rparr>) = Some ''tar.gz''
   \<and> opt_format (example_options\<lparr>opt_format := Some ''zip''\<rparr>) = Some ''zip''
   \<and> infer_format (example_options\<lparr>opt_format := Some ''zip''\<rparr>) = Some ''zip''
   \<and> main 3 example_env example_world (example_options\<lparr>opt_output := ''out.tar.gz''\<rparr>) machine0 =
       Some ([Fatal (Unsupported_format (Some ''tar.gz''))],
             Inl (RuntimeError (Unsupported_format (Some ''tar.gz''))), machine0)
   \<and> infer_format (example_options\<lparr>opt_output := ''archive''\<rparr>) = None
   \<and> main 3 example_env example_world (example_options\<lparr>opt_output := ''archive''\<rparr>) machine0 =
       Some ([Fatal (Unsupported_format None)], Inl (RuntimeError (Unsupported_format None)), machine0)"
proof -
  have a: "opt_format (example_options\<lparr>opt_output := ''out.tar.gz''\<rparr>) = None"
    by (simp add: example_options_def)
  have e: "endswith (opt_output (example_options\<lparr>opt_output := ''out.tar.gz''\<rparr>)) ''.tar.gz''"
    by (simp add: endswith_def)
  from unsupported_format_is_fatal [of "example_options\<lparr>opt_output := ''out.tar.gz''\<rparr>"] a e
  have i: "infer_format (example_options\<lparr>opt_output := ''out.tar.gz''\<rparr>) = Some ''tar.gz''"
    by simp
  have b: "opt_format (example_options\<lparr>opt_format := Some ''zip''\<rparr>) = Some ''zip''"
    by simp
  from unsupported_format_is_fatal [of "example_options\<lparr>opt_format := Some ''zip''\<rparr>"] b
  have j: "infer_format (example_options\<lparr>opt_format := Some ''zip''\<rparr>) = Some ''zip''"
    by blast
  from unsupported_format_is_fatal
         [of "example_options\<lparr>opt_output := ''out.tar.gz''\<rparr>" 3 example_env example_world machine0] i
  have k: "main 3 example_env example_world (example_options\<lparr>opt_output := ''out.tar.gz''\<rparr>) machine0 =
       Some ([Fatal (Unsupported_format (Some ''tar.gz''))],
             Inl (RuntimeError (Unsupported_format (Some ''tar.gz''))), machine0)"
    by simp
  have c: "opt_format (example_options\<lparr>opt_output := ''archive''\<rparr>) = None"
    by (simp add: example_options_def)
  from unsupported_format_is_fatal [of "example_options\<lparr>opt_output := ''archive''\<rparr>"] c
  have l: "infer_format (example_options\<lparr>opt_output := ''archive''\<rparr>) = None"
    by (simp add: endswith_def)
  from unsupported_format_is_fatal
         [of "example_options\<lparr>opt_output := ''archive''\<rparr>" 3 example_env example_world machine0] l
  have "main 3 example_env example_world (example_options\<lparr>opt_output := ''archive''\<rparr>) machine0 =
       Some ([Fatal (Unsupported_format None)], Inl (RuntimeError (Unsupported_format None)), machine0)"
    by simp
  with a i b j k l show ?thesis by blast
qed

section \<open>Properties of ParallelJobs\<close>

lemma wait_for_slot_returns:
  assumes fin: "\<forall>p \<in> set (pending jobs). proc_duration w (pid p) \<noteq> None"
      and pos: "0 < nproc jobs"
  shows "\<exists>t'. wait_for_slot w jobs t = Some t'"
proof -
  define B where "B = sum_list (map (\<lambda>p. started p + the (proc_duration w (pid p))) (pending jobs))"
  have late: "filter (running w t) (pending jobs) = []" if "B \<le> t" for t
  proof -
    have "\<not> running w t p" if p: "p \<in> set (pending jobs)" for p
    proof -
      from fin p obtain d where d: "proc_duration w (pid p) = Some d" by auto
      have "started p + the (proc_duration w (pid p)) \<le> B"
        unfolding B_def using p by (simp add: member_le_sum_list)
      with d \<open>B \<le> t\<close> show ?thesis by (simp add: running_def)
    qed
    then show ?thesis by (simp add: filter_empty_conv)
  qed
  show ?thesis
  proof (induction "B - t" arbitrary: t)
    case 0
    then have "B \<le> t" by simp
    from late [OF this] pos show ?case
      by (subst wait_for_slot.simps) simp
  next
    case (Suc k)
    then have "k = B - (t + 1)" by simp
    from Suc.hyps(1) [OF this] obtain t' where "wait_for_slot w jobs (t + 1) = Some t'" by blast
    then show ?case by (subst wait_for_slot.simps) simp
  qed
qed

lemma launch_Inr:
  "launch w cmd ud jobs m = Some (evs, Inr jobs1, m1) \<Longrightarrow>
   \<exists>t. pending jobs1 = pending jobs @ [\<lparr>pid = launched m, args = cmd, userdata = ud, started = t\<rparr>]
       \<and> nproc jobs1 = nproc jobs \<and> launched m1 = Suc (launched m)"
  by (auto simp: launch_def Let_def split: option.splits if_splits)

lemma launch_returns:
  assumes "\<forall>k. proc_duration w k \<noteq> None" "nproc jobs \<noteq> 0"
  shows "launch w cmd ud jobs m \<noteq> None"
proof -
  have a: "1 < nproc jobs \<Longrightarrow> \<exists>t. wait_for_slot w jobs (clock m) = Some t"
    using wait_for_slot_returns [of jobs w "clock m"] assms(1) by simp
  have b: "\<exists>t2. wait w p t = Some t2" for p t
    using assms(1) [rule_format, of "pid p"] by (cases "proc_duration w (pid p)") (auto simp: wait_def)
  show ?thesis
  proof (cases "1 < nproc jobs")
    case True
    with a obtain t where "wait_for_slot w jobs (clock m) = Some t" by blast
    with True show ?thesis by (simp add: launch_def Let_def split: option.splits)
  next
    case False
    with b [of "\<lparr>pid = launched m, args = cmd, userdata = ud, started = clock m\<rparr>" "clock m"]
    show ?thesis by (auto simp: launch_def Let_def split: option.splits)
  qed
qed

lemma launch_no_error:
  "popen w (launched m) cmd = None \<Longrightarrow> launch w cmd ud jobs m = Some (evs, r, m1) \<Longrightarrow>
   \<exists>jobs1. r = Inr jobs1"
  by (auto simp: launch_def Let_def split: option.splits if_splits)

lemma upt_add_Suc: "[a ..< a + Suc n] = a # [Suc a ..< Suc a + n]"
  by (simp add: upt_rec [of a] del: upt_Suc)

lemma launch_all_Inr:
  "launch_all w cmds jobs m = Some (Inr jobs1, m1) \<Longrightarrow>
   \<exists>ps. pending jobs1 = pending jobs @ ps \<and> map job_of ps = cmds
        \<and> map pid ps = [launched m ..< launched m + length cmds]
        \<and> nproc jobs1 = nproc jobs"
proof (induction cmds arbitrary: jobs m)
  case Nil
  then show ?case by simp
next
  case (Cons c cmds)
  obtain cmd ud where c: "c = (cmd, ud)" by (cases c)
  from Cons.prems c obtain evs jobs2 m2 where
    l: "launch w cmd ud jobs m = Some (evs, Inr jobs2, m2)" and
    r: "launch_all w cmds jobs2 m2 = Some (Inr jobs1, m1)"
    by (cases "launch w cmd ud jobs m") (auto split: sum.splits)
  from launch_Inr [OF l] obtain t where
    p2: "pending jobs2 = pending jobs @ [\<lparr>pid = launched m, args = cmd, userdata = ud, started = t\<rparr>]"
    and n2: "nproc jobs2 = nproc jobs" and l2: "launched m2 = Suc (launched m)" by blast
  from Cons.IH [OF r] obtain ps where
    ps1: "pending jobs1 = pending jobs2 @ ps" and ps2: "map job_of ps = cmds" and
    ps3: "map pid ps = [launched m2 ..< launched m2 + length cmds]" and
    ps4: "nproc jobs1 = nproc jobs2"
    by blast
  define p where "p = \<lparr>pid = launched m, args = cmd, userdata = ud, started = t\<rparr>"
  have a: "pending jobs1 = pending jobs @ (p # ps)" using ps1 p2 by (simp add: p_def)
  have b: "map job_of (p # ps) = c # cmds" using ps2 c by (simp add: job_of_def p_def)
  have "map pid (p # ps) = launched m # [Suc (launched m) ..< Suc (launched m) + length cmds]"
    using ps3 l2 by (simp add: p_def)
  then have d: "map pid (p # ps) = [launched m ..< launched m + length (c # cmds)]"
    using upt_add_Suc [of "launched m" "length cmds"] by (simp del: upt_Suc)
  have e: "nproc jobs1 = nproc jobs" using ps4 n2 by simp
  show ?case by (rule exI [of _ "p # ps"]) (simp only: a b d e simp_thms)
qed

lemma launch_all_returns:
  assumes fin: "\<forall>k. proc_duration w k \<noteq> None"
      and ok: "\<forall>k. \<forall>c \<in> set cmds. popen w k (fst c) = None"
  shows "nproc jobs \<noteq> 0 \<Longrightarrow> \<exists>jobs1 m1. launch_all w cmds jobs m = Some (Inr jobs1, m1)"
  using ok
proof (induction cmds arbitrary: jobs m)
  case Nil
  then show ?case by simp
next
  case (Cons c cmds)
  obtain cmd ud where c: "c = (cmd, ud)" by (cases c)
  from Cons.prems(2) c have po: "popen w (launched m) cmd = None"
    and rest: "\<forall>k. \<forall>c \<in> set cmds. popen w k (fst c) = None" by auto
  from launch_returns [OF fin Cons.prems(1), of cmd ud m] obtain evs r m2 where
    l: "launch w cmd ud jobs m = Some (evs, r, m2)" by (cases "launch w cmd ud jobs m") auto
  from launch_no_error [OF po l] obtain jobs2 where r: "r = Inr jobs2" by blast
  from launch_Inr [OF l [unfolded r]] Cons.prems(1) have "nproc jobs2 \<noteq> 0" by auto
  from Cons.IH [OF this rest, of m2] l r c show ?case by simp
qed

text \<open>One call of \<open>wait_next_in_order\<close>.\<close>

lemma wait_next_in_order_head:
  assumes "wait_next_in_order w jobs m = Some (Inr (p, jobs1, m1))"
  shows "pending jobs = p # pending jobs1 \<and> nproc jobs1 = nproc jobs
         \<and> \<not> running w (clock m1) p \<and> clock m \<le> clock m1
         \<and> (clock m1 = clock m \<longleftrightarrow> \<not> running w (clock m) p)
         \<and> files m1 = files m \<and> launched m1 = launched m"
proof (cases "pending jobs")
  case Nil
  with assms show ?thesis by (simp add: wait_next_in_order_def)
next
  case (Cons q rest)
  with assms obtain d where
    q: "q = p" and d: "proc_duration w (pid p) = Some d" and
    j: "jobs1 = jobs\<lparr>pending := rest\<rparr>" and
    m1: "m1 = m\<lparr>clock := max (clock m) (started p + d)\<rparr>"
    by (cases "proc_duration w (pid q)") (auto simp: wait_next_in_order_def wait_def)
  have "clock m1 = max (clock m) (started p + d)" using m1 by simp
  then have "\<not> clock m1 < started p + d" "clock m \<le> clock m1"
    "clock m1 = clock m \<longleftrightarrow> \<not> clock m < started p + d"
    by (auto simp: max_def)
  with Cons q d j m1 show ?thesis by (simp add: running_def)
qed

lemma wait_next_in_order_blocks:
  "wait_next_in_order w jobs m = None \<longleftrightarrow>
   (pending jobs \<noteq> [] \<and> proc_duration w (pid (hd (pending jobs))) = None)"
  by (cases "pending jobs")
     (auto simp: wait_next_in_order_def wait_def split: option.splits)

lemma wait_all_Some:
  "wait_all w jobs m = Some (rs, m') \<Longrightarrow>
   map fst rs = pending jobs \<and> (\<forall>(p, t) \<in> set rs. \<not> running w t p \<and> clock m \<le> t)
   \<and> sorted (map snd rs)"
proof (induction "pending jobs" arbitrary: jobs m rs)
  case Nil
  then show ?case by (subst (asm) wait_all.simps) (simp add: can_wait_def)
next
  case (Cons p rest)
  from Cons.hyps(2) [symmetric] Cons.prems obtain jobs1 m1 rs' where
    w: "wait_next_in_order w jobs m = Some (Inr (p, jobs1, m1))" and
    r: "wait_all w jobs1 m1 = Some (rs', m')" and
    rs: "rs = (p, clock m1) # rs'"
    by (subst (asm) wait_all.simps)
       (auto simp: can_wait_def wait_next_in_order_def split: option.splits)
  from wait_next_in_order_head [OF w] Cons.hyps(2) have
    h: "rest = pending jobs1" "\<not> running w (clock m1) p" "clock m \<le> clock m1"
    by simp_all
  from Cons.hyps(1) [OF h(1) r] have
    i: "map fst rs' = pending jobs1" "\<forall>(q, t) \<in> set rs'. \<not> running w t q \<and> clock m1 \<le> t"
       "sorted (map snd rs')"
    by simp_all
  from i(2) h(3) have "\<forall>(q, t) \<in> set rs'. \<not> running w t q \<and> clock m \<le> t" by auto
  moreover from i(2) have "\<forall>t \<in> set (map snd rs'). clock m1 \<le> t" by auto
  ultimately show ?case using rs h i Cons.hyps(2) by auto
qed

lemma wait_all_returns:
  "\<forall>k. proc_duration w k \<noteq> None \<Longrightarrow> wait_all w jobs m \<noteq> None"
proof (induction "pending jobs" arbitrary: jobs m)
  case Nil
  then show ?case by (subst wait_all.simps) (simp add: can_wait_def)
next
  case (Cons p rest)
  from Cons.prems [rule_format, of "pid p"] obtain d where d: "proc_duration w (pid p) = Some d"
    by (cases "proc_duration w (pid p)") auto
  have "rest = pending (jobs\<lparr>pending := rest\<rparr>)" by simp
  from Cons.hyps(1) [OF this Cons.prems, of "m\<lparr>clock := max (clock m) (started p + d)\<rparr>"]
  show ?case using Cons.hyps(2) [symmetric] d
    by (subst wait_all.simps)
       (auto simp: can_wait_def wait_next_in_order_def wait_def split: option.splits)
qed

lemma wait_all_blocks:
  "\<exists>p \<in> set (pending jobs). proc_duration w (pid p) = None \<Longrightarrow> wait_all w jobs m = None"
proof (induction "pending jobs" arbitrary: jobs m)
  case Nil
  then show ?case by simp
next
  case (Cons p rest)
  show ?case
  proof (cases "proc_duration w (pid p)")
    case None
    with Cons.hyps(2) [symmetric] show ?thesis
      by (subst wait_all.simps) (simp add: can_wait_def wait_next_in_order_def wait_def)
  next
    case (Some d)
    with Cons.prems Cons.hyps(2) [symmetric] have
      "\<exists>q \<in> set (pending (jobs\<lparr>pending := rest\<rparr>)). proc_duration w (pid q) = None" by auto
    moreover have "rest = pending (jobs\<lparr>pending := rest\<rparr>)" by simp
    ultimately have "wait_all w (jobs\<lparr>pending := rest\<rparr>) (m\<lparr>clock := max (clock m) (started p + d)\<rparr>) = None"
      using Cons.hyps(1) by blast
    with Some Cons.hyps(2) [symmetric] show ?thesis
      by (subst wait_all.simps) (simp add: can_wait_def wait_next_in_order_def wait_def)
  qed
qed

text \<open>
  C4. Jobs are launched one after the other and then taken back with
  \<open>wait_next_in_order\<close> until none is left. Whatever the durations of the
  processes, the jobs come back in the order of their launch, and each one has exited
  at the time the call returns it. One call pops the head of \<open>pending\<close> and returns
  when the head has exited, at once only if it had exited before; it never returns
  exactly when the head never exits, whatever the other jobs did. When every process
  exits and no \<open>Popen\<close> raises, all the launches and all the waits return. In the
  witness the second job has exited at time \<open>1\<close>, the first is returned first, at
  time \<open>5\<close>.
\<close>

theorem wait_next_in_launch_order:
  "(\<forall>jobs m1 rs m2.
      launch_all w cmds (ParallelJobs n) m = Some (Inr jobs, m1) \<longrightarrow>
      wait_all w jobs m1 = Some (rs, m2) \<longrightarrow>
      map (\<lambda>(p, t). job_of p) rs = cmds
      \<and> map (\<lambda>(p, t). pid p) rs = [launched m ..< launched m + length cmds]
      \<and> (\<forall>(p, t) \<in> set rs. \<not> running w t p)
      \<and> sorted (map snd rs))
   \<and> (\<forall>jobs m p jobs1 m1.
        wait_next_in_order w jobs m = Some (Inr (p, jobs1, m1)) \<longrightarrow>
        pending jobs = p # pending jobs1
        \<and> \<not> running w (clock m1) p \<and> clock m \<le> clock m1
        \<and> (clock m1 = clock m \<longleftrightarrow> \<not> running w (clock m) p))
   \<and> (\<forall>jobs m. wait_next_in_order w jobs m = None \<longleftrightarrow>
        (pending jobs \<noteq> [] \<and> proc_duration w (pid (hd (pending jobs))) = None))
   \<and> ((\<forall>k. proc_duration w k \<noteq> None) \<longrightarrow> (\<forall>k. \<forall>c \<in> set cmds. popen w k (fst c) = None) \<longrightarrow>
        (\<exists>jobs m1 rs m2. launch_all w cmds (ParallelJobs n) m = Some (Inr jobs, m1)
                         \<and> wait_all w jobs m1 = Some (rs, m2)))"
proof (intro conjI impI allI)
  fix jobs m1 rs m2
  assume l: "launch_all w cmds (ParallelJobs n) m = Some (Inr jobs, m1)"
     and wa: "wait_all w jobs m1 = Some (rs, m2)"
  from launch_all_Inr [OF l] obtain ps' where
    ps: "pending jobs = ps'" "map job_of ps' = cmds"
        "map pid ps' = [launched m ..< launched m + length cmds]"
    by (auto simp: ParallelJobs_def)
  from wait_all_Some [OF wa] have
    ws: "map fst rs = pending jobs" "\<forall>(p, t) \<in> set rs. \<not> running w t p \<and> clock m1 \<le> t"
        "sorted (map snd rs)"
    by simp_all
  have "map (\<lambda>(p, t). job_of p) rs = map job_of (map fst rs)"
    by (simp add: case_prod_beta comp_def)
  with ws(1) ps show "map (\<lambda>(p, t). job_of p) rs = cmds" by simp
  have "map (\<lambda>(p, t). pid p) rs = map pid (map fst rs)"
    by (simp add: case_prod_beta comp_def)
  with ws(1) ps show "map (\<lambda>(p, t). pid p) rs = [launched m ..< launched m + length cmds]"
    by simp
  from ws(2) show "\<forall>(p, t) \<in> set rs. \<not> running w t p" by auto
  from ws(3) show "sorted (map snd rs)" .
next
  fix jobs m p jobs1 m1
  assume "wait_next_in_order w jobs m = Some (Inr (p, jobs1, m1))"
  from wait_next_in_order_head [OF this]
  show "pending jobs = p # pending jobs1" and "\<not> running w (clock m1) p"
    and "clock m \<le> clock m1" and "clock m1 = clock m \<longleftrightarrow> \<not> running w (clock m) p"
    by simp_all
next
  fix jobs m
  show "wait_next_in_order w jobs m = None \<longleftrightarrow>
        (pending jobs \<noteq> [] \<and> proc_duration w (pid (hd (pending jobs))) = None)"
    by (rule wait_next_in_order_blocks)
next
  assume fin: "\<forall>k. proc_duration w k \<noteq> None"
     and ok: "\<forall>k. \<forall>c \<in> set cmds. popen w k (fst c) = None"
  have "nproc (ParallelJobs n) \<noteq> 0" by (simp add: ParallelJobs_def)
  from launch_all_returns [OF fin ok this, of m] obtain jobs m1 where
    l: "launch_all w cmds (ParallelJobs n) m = Some (Inr jobs, m1)" by auto
  from wait_all_returns [OF fin, of jobs m1] obtain rs m2 where
    "wait_all w jobs m1 = Some (rs, m2)" by auto
  with l show "\<exists>jobs m1 rs m2. launch_all w cmds (ParallelJobs n) m = Some (Inr jobs, m1)
                         \<and> wait_all w jobs m1 = Some (rs, m2)"
    by (intro exI conjI)
qed

theorem wait_next_in_launch_order_witness:
  "\<exists>jobs m1 rs m2.
     launch_all example_world [([''sleep'', ''5''], ''a''), ([''sleep'', ''1''], ''b'')]
       (ParallelJobs 2) machine0 = Some (Inr jobs, m1)
     \<and> wait_all example_world jobs m1 = Some (rs, m2)
     \<and> map (\<lambda>(p, t). job_of p) rs = [([''sleep'', ''5''], ''a''), ([''sleep'', ''1''], ''b'')]
     \<and> map (\<lambda>(p, t). pid p) rs = [0, 1]
     \<and> map snd rs = [5, 5]
     \<and> list_all (\<lambda>(p, t). \<not> running example_world t p) rs
     \<and> running example_world 1 (fst (rs ! 0)) \<and> \<not> running example_world 1 (fst (rs ! 1))
     \<and> wait_next_in_order (example_world\<lparr>proc_duration := \<lambda>k. if k = 0 then None else Some 1\<rparr>)
           jobs m1 = None"
proof -
  let ?cmds = "[([''sleep'', ''5''], ''a''), ([''sleep'', ''1''], ''b'')]"
  let ?p0 = "\<lparr>pid = 0, args = [''sleep'', ''5''], userdata = ''a'', started = 0\<rparr>"
  let ?p1 = "\<lparr>pid = 1, args = [''sleep'', ''1''], userdata = ''b'', started = 0\<rparr>"
  let ?w2 = "example_world\<lparr>proc_duration := \<lambda>k. if k = 0 then None else Some 1\<rparr>"
  have fin: "\<forall>k. proc_duration example_world k \<noteq> None"
    by (simp add: example_world_def)
  have ok: "\<forall>k. \<forall>c \<in> set ?cmds. popen example_world k (fst c) = None"
    by (simp add: example_world_def popen_def)
  from mp [OF mp [OF wait_next_in_launch_order [of example_world ?cmds 2 machine0,
                       THEN conjunct2, THEN conjunct2, THEN conjunct2] fin] ok]
  obtain jobs m1 rs m2 where
    l: "launch_all example_world ?cmds (ParallelJobs 2) machine0 = Some (Inr jobs, m1)" and
    wa: "wait_all example_world jobs m1 = Some (rs, m2)"
    by (elim exE conjE)
  from wait_next_in_launch_order [of example_world ?cmds 2 machine0, THEN conjunct1, rule_format, OF l wa]
  have order: "map (\<lambda>(p, t). job_of p) rs = ?cmds"
    and pids: "map (\<lambda>(p, t). pid p) rs = [launched machine0 ..< launched machine0 + length ?cmds]"
    and exited: "\<forall>(p, t) \<in> set rs. \<not> running example_world t p"
    by simp_all
  have "map_option (\<lambda>(r, m). case r of Inl e \<Rightarrow> [] | Inr j \<Rightarrow> pending j)
          (launch_all example_world ?cmds (ParallelJobs 2) machine0) = Some [?p0, ?p1]"
    by code_simp
  with l have pend: "pending jobs = [?p0, ?p1]" by simp
  have "map_option fst
          (case launch_all example_world ?cmds (ParallelJobs 2) machine0 of
             Some (Inr j, m) \<Rightarrow> wait_all example_world j m | _ \<Rightarrow> None) =
        Some [(?p0, 5), (?p1, 5)]"
    by code_simp
  with l wa have rs: "rs = [(?p0, 5), (?p1, 5)]" by simp
  have times: "map snd rs = [5, 5]" using rs by simp
  have run: "running example_world 1 (fst (rs ! 0))" "\<not> running example_world 1 (fst (rs ! 1))"
    using rs by (simp_all add: running_def example_world_def)
  have "[launched machine0 ..< launched machine0 + length ?cmds] = [0, 1]"
    by (simp add: machine0_def upt_add_Suc [of 0 1, simplified])
  with pids have pids': "map (\<lambda>(p, t). pid p) rs = [0, 1]" by simp
  from exited have ex': "list_all (\<lambda>(p, t). \<not> running example_world t p) rs"
    by (simp add: list_all_iff)
  have "pending jobs \<noteq> [] \<and> proc_duration ?w2 (pid (hd (pending jobs))) = None"
    using pend by simp
  with wait_next_in_launch_order [of ?w2 ?cmds 2 machine0, THEN conjunct2, THEN conjunct2,
         THEN conjunct1, rule_format, of jobs m1]
  have blocks: "wait_next_in_order ?w2 jobs m1 = None" by simp
  from l wa order pids' times ex' run blocks show ?thesis by (intro exI conjI)
qed

section \<open>Properties of the traversal and the assembly in main\<close>

lemma outs_append: "outs (xs @ ys) = outs xs @ outs ys"
  by (induction xs rule: outs.induct) auto

lemma outs_map_Out: "outs (map Out evs) = evs"
  by (induction evs) auto

lemma not_found_report_prints:
  "\<forall>e \<in> set (outs (fst (not_found_report env tp g r path rv))). is_walk_print e"
  by (auto simp: not_found_report_def Let_def split: sum.splits option.splits)

lemma git_stdout_prints:
  "git_stdout env pwd gitdir sub = Inl (evs, e) \<Longrightarrow> \<forall>x \<in> set evs. is_walk_print x"
  by (auto simp: git_stdout_def run_stdout_def split: sum.splits prod.splits if_splits)

lemma iter_entries_prints:
  assumes "\<And>tp g r dd. \<forall>e \<in> set (outs (fst (recurse tp g r dd))). is_walk_print e"
  shows "\<forall>e \<in> set (outs (fst (iter_entries recurse env gitdirs tp g r d entries))). is_walk_print e"
proof (induction entries)
  case Nil
  then show ?case by simp
next
  case (Cons x entries)
  show ?case
  proof (cases x)
    case (Inl a)
    then show ?thesis by simp
  next
    case (Inr o1)
    show ?thesis
    proof (cases o1)
      case None
      with Inr Cons show ?thesis by simp
    next
      case (Some l)
      obtain path rv where l: "l = (path, rv)" by (cases l)
      obtain items2 r2 where i2: "iter_entries recurse env gitdirs tp g r d entries = (items2, r2)"
        by (cases "iter_entries recurse env gitdirs tp g r d entries")
      with Cons have p2: "\<forall>e \<in> set (outs items2). is_walk_print e" by simp
      have p1: "\<forall>e \<in> set (outs (fst (recurse (tp @ ''/'' @ path) g' rv (d - 1)))). is_walk_print e" for g'
        by (rule assms)
      show ?thesis
      proof (cases "find_gitdir env gitdirs (PyStr (tp @ ''/'' @ path)) rv")
        case (Inl a)
        with Inr Some l i2 p2 show ?thesis by (cases "d = 0") simp_all
      next
        case fnd: (Inr og)
        show ?thesis
        proof (cases og)
          case None
          with fnd Inr \<open>o1 = Some l\<close> l i2 p2 not_found_report_prints [of env tp g r path rv]
          show ?thesis by (cases "d = 0") simp_all
        next
          case (Some g')
          obtain items1 r1 where i1: "recurse (tp @ ''/'' @ path) g' rv (d - 1) = (items1, r1)"
            by (cases "recurse (tp @ ''/'' @ path) g' rv (d - 1)")
          with p1 [of g'] have "\<forall>e \<in> set (outs items1). is_walk_print e" by simp
          with fnd Some Inr \<open>o1 = Some l\<close> l i1 i2 p2 show ?thesis
            by (cases "d = 0"; cases r1) (auto simp: outs_append)
        qed
      qed
    qed
  qed
qed

lemma walk_prints:
  "\<forall>e \<in> set (outs (fst (recursively_iter_repos n env gitdirs tp g r d))). is_walk_print e"
proof (induction n arbitrary: tp g r d)
  case 0
  then show ?case by simp
next
  case (Suc n)
  show ?case
  proof (cases "iter_git_submodules_at_rev env g r")
    case (Inl x)
    obtain evs e where x: "x = (evs, e)" by (cases x)
    with Inl have "\<forall>x \<in> set evs. is_walk_print x"
      by (auto simp: iter_git_submodules_at_rev_def split: sum.splits dest: git_stdout_prints)
    with Inl x show ?thesis by (simp add: outs_map_Out)
  next
    case (Inr entries)
    obtain items oc where
      it: "iter_entries (recursively_iter_repos n env gitdirs) env gitdirs tp g r d entries = (items, oc)"
      by (cases "iter_entries (recursively_iter_repos n env gitdirs) env gitdirs tp g r d entries")
    have "\<forall>e \<in> set (outs (fst (iter_entries (recursively_iter_repos n env gitdirs) env gitdirs
                                    tp g r d entries))). is_walk_print e"
      by (rule iter_entries_prints) (rule Suc.IH)
    with Inr it show ?thesis by simp
  qed
qed

lemma startswith_append: "startswith s (p @ q) \<Longrightarrow> startswith s p"
proof -
  assume "startswith s (p @ q)"
  then have "take (length p + length q) s = p @ q" by (simp add: startswith_def)
  then have "take (length p) (take (length p + length q) s) = take (length p) (p @ q)" by simp
  then show ?thesis by (simp add: startswith_def min_def)
qed

lemma iter_entries_under:
  assumes "\<And>tp' g r dd. \<forall>nd \<in> set (yields (fst (recurse tp' g r dd))). under tp' nd"
  shows "\<forall>nd \<in> set (yields (fst (iter_entries recurse env gitdirs tp g r d entries))). under tp nd"
proof (induction entries)
  case Nil
  then show ?case by simp
next
  case (Cons x entries)
  show ?case
  proof (cases x)
    case (Inl a)
    then show ?thesis by simp
  next
    case (Inr o1)
    show ?thesis
    proof (cases o1)
      case None
      with Inr Cons show ?thesis by simp
    next
      case (Some l)
      obtain path rv where l: "l = (path, rv)" by (cases l)
      obtain items2 r2 where i2: "iter_entries recurse env gitdirs tp g r d entries = (items2, r2)"
        by (cases "iter_entries recurse env gitdirs tp g r d entries")
      with Cons have p2: "\<forall>nd \<in> set (yields items2). under tp nd" by simp
      have p1: "\<forall>nd \<in> set (yields (fst (recurse (tp @ ''/'' @ path) g' rv (d - 1)))). under tp nd" for g'
      proof
        fix nd assume "nd \<in> set (yields (fst (recurse (tp @ ''/'' @ path) g' rv (d - 1))))"
        with assms have "under (tp @ ''/'' @ path) nd" by blast
        then have "startswith (fst nd @ ''/'') ((tp @ ''/'') @ (path @ ''/''))" by (simp add: under_def)
        then show "under tp nd" unfolding under_def by (rule startswith_append)
      qed
      show ?thesis
      proof (cases "find_gitdir env gitdirs (PyStr (tp @ ''/'' @ path)) rv")
        case (Inl a)
        with Inr Some l i2 p2 show ?thesis by (cases "d = 0") simp_all
      next
        case fnd: (Inr og)
        show ?thesis
        proof (cases og)
          case None
          with fnd Inr \<open>o1 = Some l\<close> l i2 p2 not_found_report_yields [of env tp g r path rv]
          show ?thesis by (cases "d = 0") simp_all
        next
          case (Some g')
          obtain items1 r1 where i1: "recurse (tp @ ''/'' @ path) g' rv (d - 1) = (items1, r1)"
            by (cases "recurse (tp @ ''/'' @ path) g' rv (d - 1)")
          with p1 [of g'] have "\<forall>nd \<in> set (yields items1). under tp nd" by simp
          with fnd Some Inr \<open>o1 = Some l\<close> l i1 i2 p2 show ?thesis
            by (cases "d = 0"; cases r1) (auto simp: yields_append)
        qed
      qed
    qed
  qed
qed

lemma walk_under:
  "\<forall>nd \<in> set (yields (fst (recursively_iter_repos n env gitdirs tp g r d))). under tp nd"
proof (induction n arbitrary: tp g r d)
  case 0
  then show ?case by simp
next
  case (Suc n)
  have root: "under tp (tp, g, r)" by (simp add: under_def startswith_def)
  show ?case
  proof (cases "iter_git_submodules_at_rev env g r")
    case (Inl x)
    obtain evs e where x: "x = (evs, e)" by (cases x)
    with Inl root show ?thesis by (simp add: yields_map_Out)
  next
    case (Inr entries)
    obtain items oc where
      it: "iter_entries (recursively_iter_repos n env gitdirs) env gitdirs tp g r d entries = (items, oc)"
      by (cases "iter_entries (recursively_iter_repos n env gitdirs) env gitdirs tp g r d entries")
    have "\<forall>nd \<in> set (yields (fst (iter_entries (recursively_iter_repos n env gitdirs) env gitdirs
                                    tp g r d entries))). under tp nd"
      by (rule iter_entries_under) (rule Suc.IH)
    with Inr it root show ?thesis by simp
  qed
qed

lemma segment_output_neq: "segment_output opt k \<noteq> opt_output opt"
proof
  assume "segment_output opt k = opt_output opt"
  then have "length (segment_output opt k) = length (opt_output opt)" by simp
  then show False by (simp add: segment_output_def)
qed

lemma child_output_archive_cmd:
  "x \<noteq> segment_output opt k \<Longrightarrow> child_output w j (archive_cmd opt fmt ts k nd) fs x = fs x"
  by (cases nd) (simp add: child_output_def archive_cmd_def split: option.splits)

lemma launch_events:
  "launch w cmd ud jobs m = Some (evs, Inr jobs1, m1) \<Longrightarrow>
   (evs = [Popen (launched m) cmd] \<or> evs = [Popen (launched m) cmd, Waited (launched m)])
   \<and> files m1 = child_output w (launched m) cmd (files m)"
  by (auto simp: launch_def Let_def split: option.splits if_splits)

lemma launch_raises:
  "launch w cmd ud jobs m = Some (evs, Inl e, m1) \<Longrightarrow> evs = [] \<and> files m1 = files m"
  by (auto simp: launch_def Let_def split: option.splits if_splits)

lemma archive_nodes_dry:
  assumes dry: "opt_dryrun opt"
  shows "\<forall>nd \<in> set (yields items). startswith (fst nd @ ''/'') ts \<Longrightarrow>
         \<forall>e \<in> set (outs items). is_walk_print e \<Longrightarrow>
         \<exists>evs. archive_nodes w opt fmt ts items nt jobs m
                  = Some (evs, Inr (nt + length (yields items), jobs), m)
              \<and> filter is_effect evs = []
              \<and> dry_run_lines evs =
                  map (\<lambda>(k, nd). (Suc k, archive_prefix opt ts (fst nd))) (enumerate nt (yields items))"
proof (induction items arbitrary: nt)
  case Nil
  then show ?case by simp
next
  case (Cons it items)
  show ?case
  proof (cases it)
    case (Out e)
    with Cons.prems have e: "is_walk_print e" and
      y: "\<forall>nd \<in> set (yields items). startswith (fst nd @ ''/'') ts" and
      o: "\<forall>e \<in> set (outs items). is_walk_print e" by simp_all
    from Cons.IH [OF y o, of nt] obtain evs where
      a: "archive_nodes w opt fmt ts items nt jobs m = Some (evs, Inr (nt + length (yields items), jobs), m)"
      and b: "filter is_effect evs = []"
      and c: "dry_run_lines evs =
                map (\<lambda>(k, nd). (Suc k, archive_prefix opt ts (fst nd))) (enumerate nt (yields items))"
      by blast
    from e have "\<not> is_effect e" "dry_run_lines (e # evs) = dry_run_lines evs"
      by (induction e rule: is_walk_print.induct) simp_all
    with Out a b c show ?thesis
      by (intro exI [of _ "e # evs"]) simp
  next
    case (Yield nd)
    obtain fullpath gitdir rv where nd: "nd = (fullpath, gitdir, rv)" by (cases nd)
    from Cons.prems Yield nd have s: "startswith (fullpath @ ''/'') ts" and
      y: "\<forall>nd \<in> set (yields items). startswith (fst nd @ ''/'') ts" and
      o: "\<forall>e \<in> set (outs items). is_walk_print e" by simp_all
    from Cons.IH [OF y o, of "nt + 1"] obtain evs where
      a: "archive_nodes w opt fmt ts items (nt + 1) jobs m
            = Some (evs, Inr (nt + 1 + length (yields items), jobs), m)"
      and b: "filter is_effect evs = []"
      and c: "dry_run_lines evs =
                map (\<lambda>(k, nd). (Suc k, archive_prefix opt ts (fst nd)))
                  (enumerate (nt + 1) (yields items))"
      by blast
    from Yield nd s dry a b c show ?thesis
      by (intro exI [of _ "Info (Dry_run (nt + 1) (archive_prefix opt ts fullpath)) # evs"]) simp
  qed
qed

lemma archive_nodes_dry_frame:
  assumes dry: "opt_dryrun opt"
  shows "\<forall>e \<in> set (outs items). is_walk_print e \<Longrightarrow>
         archive_nodes w opt fmt ts items nt jobs m = Some (evs, r, m') \<Longrightarrow>
         m' = m \<and> filter is_effect evs = []"
proof (induction items arbitrary: nt evs)
  case Nil
  then show ?case by simp
next
  case (Cons it items)
  show ?case
  proof (cases it)
    case (Out e)
    with Cons.prems have e: "is_walk_print e" and
      o: "\<forall>e \<in> set (outs items). is_walk_print e" by simp_all
    from Cons.prems(2) Out obtain evs1 where
      a: "archive_nodes w opt fmt ts items nt jobs m = Some (evs1, r, m')" and evs: "evs = e # evs1"
      by (auto split: option.splits)
    from e have "\<not> is_effect e" by (induction e rule: is_walk_print.induct) simp_all
    with Cons.IH [OF o a] evs show ?thesis by simp
  next
    case (Yield nd)
    obtain fullpath gitdir rv where nd: "nd = (fullpath, gitdir, rv)" by (cases nd)
    from Cons.prems Yield have o: "\<forall>e \<in> set (outs items). is_walk_print e" by simp
    show ?thesis
    proof (cases "startswith (fullpath @ ''/'') ts")
      case False
      with Cons.prems(2) Yield nd show ?thesis by simp
    next
      case True
      with Cons.prems(2) Yield nd dry obtain evs1 where
        a: "archive_nodes w opt fmt ts items (nt + 1) jobs m = Some (evs1, r, m')" and
        evs: "evs = Info (Dry_run (nt + 1) (archive_prefix opt ts fullpath)) # evs1"
        by (auto split: option.splits)
      with Cons.IH [OF o a] show ?thesis by simp
    qed
  qed
qed

lemma archive_nodes_real:
  assumes real: "\<not> opt_dryrun opt"
  shows "\<forall>e \<in> set (outs items). is_walk_print e \<Longrightarrow>
         archive_nodes w opt fmt ts items nt jobs m = Some (evs, r, m') \<Longrightarrow>
         (\<forall>e \<in> set evs. \<not> is_assembly e)
         \<and> files m' (opt_output opt) = files m (opt_output opt)
         \<and> (\<forall>x. r = Inr x \<longrightarrow>
               popen_cmds evs = map (\<lambda>(k, nd). archive_cmd opt fmt ts k nd) (enumerate nt (yields items)))"
proof (induction items arbitrary: nt evs jobs m)
  case Nil
  then show ?case by simp
next
  case (Cons it items)
  show ?case
  proof (cases it)
    case (Out e)
    with Cons.prems have e: "is_walk_print e" and
      o: "\<forall>e \<in> set (outs items). is_walk_print e" by simp_all
    from Cons.prems(2) Out obtain evs1 where
      a: "archive_nodes w opt fmt ts items nt jobs m = Some (evs1, r, m')" and evs: "evs = e # evs1"
      by (auto split: option.splits)
    from e have "\<not> is_assembly e" "popen_cmds (e # evs1) = popen_cmds evs1"
      by (induction e rule: is_walk_print.induct) simp_all
    with Cons.IH [OF o a] evs Out show ?thesis by simp
  next
    case (Yield nd)
    obtain fullpath gitdir rv where nd: "nd = (fullpath, gitdir, rv)" by (cases nd)
    from Cons.prems Yield have o: "\<forall>e \<in> set (outs items). is_walk_print e" by simp
    show ?thesis
    proof (cases "startswith (fullpath @ ''/'') ts")
      case False
      with Cons.prems(2) Yield nd show ?thesis by auto
    next
      case True
      from True Cons.prems(2) Yield nd real obtain evs1 r1 m1 where
        l0: "launch w (archive_cmd opt fmt ts nt nd) (segment_output opt nt) jobs m = Some (evs1, r1, m1)"
        by (cases "launch w (archive_cmd opt fmt ts nt nd) (segment_output opt nt) jobs m") auto
      show ?thesis
      proof (cases r1)
        case (Inl e)
        with True Cons.prems(2) Yield nd real l0 have
          "evs = Info (Launching (nt + 1) (archive_prefix opt ts fullpath)) # evs1"
          "r = Inl e" "m' = m1"
          by simp_all
        with launch_raises [OF l0 [unfolded Inl]] show ?thesis by simp
      next
        case (Inr jobs1)
      with True Cons.prems(2) Yield nd real l0 obtain evs2 where
        l: "launch w (archive_cmd opt fmt ts nt nd) (segment_output opt nt) jobs m = Some (evs1, Inr jobs1, m1)" and
        a: "archive_nodes w opt fmt ts items (nt + 1) jobs1 m1 = Some (evs2, r, m')" and
        evs: "evs = Info (Launching (nt + 1) (archive_prefix opt ts fullpath)) # evs1 @ evs2"
        by (auto split: option.splits)
      from launch_events [OF l] have
        e1: "evs1 = [Popen (launched m) (archive_cmd opt fmt ts nt nd)]
             \<or> evs1 = [Popen (launched m) (archive_cmd opt fmt ts nt nd), Waited (launched m)]" and
        f1: "files m1 = child_output w (launched m) (archive_cmd opt fmt ts nt nd) (files m)"
        by simp_all
      from f1 have f: "files m1 (opt_output opt) = files m (opt_output opt)"
        using child_output_archive_cmd [of "opt_output opt" opt nt w "launched m" fmt ts nd "files m"]
              segment_output_neq [of opt nt] by simp
      from e1 have p1: "\<forall>e \<in> set evs1. \<not> is_assembly e"
        and c1: "popen_cmds (evs1 @ evs2) = archive_cmd opt fmt ts nt nd # popen_cmds evs2"
        by auto
      from Cons.IH [OF o a] have
        i1: "\<forall>e \<in> set evs2. \<not> is_assembly e" and
        i2: "files m' (opt_output opt) = files m1 (opt_output opt)" and
        i3: "\<forall>x. r = Inr x \<longrightarrow>
               popen_cmds evs2 = map (\<lambda>(k, nd). archive_cmd opt fmt ts k nd)
                                   (enumerate (nt + 1) (yields items))"
        by simp_all
      from evs p1 i1 have g1: "\<forall>e \<in> set evs. \<not> is_assembly e" by auto
      from f i2 have g2: "files m' (opt_output opt) = files m (opt_output opt)" by simp
      from evs c1 i3 Yield have
        g3: "\<forall>x. r = Inr x \<longrightarrow>
               popen_cmds evs = map (\<lambda>(k, nd). archive_cmd opt fmt ts k nd)
                                  (enumerate nt (yields (it # items)))"
        by simp
      from g1 g2 g3 show ?thesis by simp
      qed
    qed
  qed
qed

lemma assemble_no_launch:
  "assemble w fmt final nd nt jobs m = Some (evs, r, m') \<Longrightarrow> \<forall>e \<in> set evs. \<not> is_launch e"
proof (induction w fmt final nd nt jobs m arbitrary: evs r m' rule: assemble.induct)
  case (1 w fmt final_output ndone ntotal jobs m)
  show ?case
  proof (cases "can_wait jobs")
    case False
    with "1.prems" show ?thesis by (subst (asm) assemble.simps) simp
  next
    case True
    show ?thesis
    proof (cases "wait_next_in_order w jobs m")
      case None
      with True "1.prems" show ?thesis by (subst (asm) assemble.simps) simp
    next
      case (Some x)
      show ?thesis
      proof (cases x)
        case (Inl e)
        with True Some "1.prems" show ?thesis by (subst (asm) assemble.simps) auto
      next
        case (Inr y)
        obtain p jobs1 m1 where y: "y = (p, jobs1, m1)" by (cases y)
        obtain rc fs2 where t: "run_tar w final_output (userdata p) (files m1) = (rc, fs2)"
          by (cases "run_tar w final_output (userdata p) (files m1)")
        show ?thesis
        proof (cases "proc_returncode w (pid p) \<noteq> 0 \<or> fmt \<noteq> ''tar'' \<or> rc \<noteq> 0")
          case True
          with \<open>can_wait jobs\<close> Some Inr y t "1.prems" show ?thesis
            by (subst (asm) assemble.simps) (auto split: if_splits)
        next
          case False
          let ?m2 = "m1\<lparr>files := (case os_unlink w (userdata p) fs2 of Inl e \<Rightarrow> fs2 | Inr fs3 \<Rightarrow> fs3)\<rparr>"
          from False \<open>can_wait jobs\<close> Some Inr y t "1.prems" obtain evs2 where
            a: "assemble w fmt final_output (ndone + 1) ntotal jobs1 ?m2 = Some (evs2, r, m')" and
            evs: "evs = [Info (Waiting_and_concatenating (ndone + 1) ntotal), Waited (pid p),
                         Run [''tar'', ''--concatenate'', ''-f'', final_output, userdata p],
                         Unlink (userdata p)]
                        @ (case os_unlink w (userdata p) fs2 of
                             Inl e \<Rightarrow> [Warning (Cleanup_exception (userdata p))] | Inr fs3 \<Rightarrow> [])
                        @ evs2"
            by (subst (asm) assemble.simps) (auto split: option.splits)
          from False have c: "\<not> proc_returncode w (pid p) \<noteq> 0" "\<not> fmt \<noteq> ''tar''" "\<not> rc \<noteq> 0"
            by simp_all
          have "\<forall>e \<in> set evs2. \<not> is_launch e"
            by (rule "1.IH" [OF \<open>can_wait jobs\<close> Some Inr y [symmetric] refl c(1) c(2) t [symmetric] c(3) a])
          with evs show ?thesis by (auto split: sum.splits)
        qed
      qed
    qed
  qed
qed

lemma format_ok:
  "\<not> (case infer_format opt of None \<Rightarrow> True | Some f \<Rightarrow> f \<notin> set SUPPORTED_FORMAT)
   \<longleftrightarrow> infer_format opt = Some ''tar''"
  by (cases "infer_format opt") (auto simp: SUPPORTED_FORMAT_def)

lemma main_Some_cases [consumes 1, case_names format resolve body walk dry unlink assemble]:
  assumes run: "main n env w opt m = Some (evs, res, m')"
  obtains
    "infer_format opt \<noteq> Some ''tar''"
    "evs = [Fatal (Unsupported_format (infer_format opt))]" "m' = m"
    "res = Inl (RuntimeError (Unsupported_format (infer_format opt)))"
  | e where
    "infer_format opt = Some ''tar''" "resolve env opt = Inl (evs, e)" "res = Inl e" "m' = m"
  | top_rev tp tg gitdirs items r e where
    "infer_format opt = Some ''tar''" "resolve env opt = Inr (top_rev, tp, tg, gitdirs)"
    "recursively_iter_repos n env gitdirs tp (PyStr tg) top_rev (opt_depth opt) = (items, r)"
    "archive_nodes w opt ''tar'' (tp @ ''/'') items 0 (ParallelJobs (opt_nproc opt)) m
       = Some (evs, Inl e, m')"
    "res = Inl e"
  | top_rev tp tg gitdirs items e x where
    "infer_format opt = Some ''tar''" "resolve env opt = Inr (top_rev, tp, tg, gitdirs)"
    "recursively_iter_repos n env gitdirs tp (PyStr tg) top_rev (opt_depth opt) = (items, Raised e)"
    "archive_nodes w opt ''tar'' (tp @ ''/'') items 0 (ParallelJobs (opt_nproc opt)) m
       = Some (evs, Inr x, m')"
    "res = Inl e"
  | top_rev tp tg gitdirs items evs1 x where
    "infer_format opt = Some ''tar''" "resolve env opt = Inr (top_rev, tp, tg, gitdirs)"
    "recursively_iter_repos n env gitdirs tp (PyStr tg) top_rev (opt_depth opt) = (items, Finished)"
    "archive_nodes w opt ''tar'' (tp @ ''/'') items 0 (ParallelJobs (opt_nproc opt)) m
       = Some (evs1, Inr x, m')"
    "opt_dryrun opt" "evs = evs1 @ [Info Dry_run_done]" "res = Inr 0"
  | top_rev tp tg gitdirs items evs1 x e where
    "infer_format opt = Some ''tar''" "resolve env opt = Inr (top_rev, tp, tg, gitdirs)"
    "recursively_iter_repos n env gitdirs tp (PyStr tg) top_rev (opt_depth opt) = (items, Finished)"
    "archive_nodes w opt ''tar'' (tp @ ''/'') items 0 (ParallelJobs (opt_nproc opt)) m
       = Some (evs1, Inr x, m')"
    "\<not> opt_dryrun opt" "final_unlink w (opt_output opt) (files m') = Inl e"
    "evs = evs1 @ [Unlink (opt_output opt)]" "res = Inl e"
  | top_rev tp tg gitdirs items evs1 nt jobs m1 fs evs2 r2 where
    "infer_format opt = Some ''tar''" "resolve env opt = Inr (top_rev, tp, tg, gitdirs)"
    "recursively_iter_repos n env gitdirs tp (PyStr tg) top_rev (opt_depth opt) = (items, Finished)"
    "archive_nodes w opt ''tar'' (tp @ ''/'') items 0 (ParallelJobs (opt_nproc opt)) m
       = Some (evs1, Inr (nt, jobs), m1)"
    "\<not> opt_dryrun opt" "final_unlink w (opt_output opt) (files m1) = Inr fs"
    "assemble w ''tar'' (opt_output opt) 0 nt jobs (m1\<lparr>files := fs\<rparr>) = Some (evs2, r2, m')"
    "evs = evs1 @ [Unlink (opt_output opt)] @ evs2 @ (case r2 of Inl e \<Rightarrow> [] | Inr u \<Rightarrow> [Info Done_msg])"
    "res = (case r2 of Inl e \<Rightarrow> Inl e | Inr u \<Rightarrow> Inr 0)"
proof (cases "infer_format opt = Some ''tar''")
  case False
  with run format_ok [of opt] have
    "evs = [Fatal (Unsupported_format (infer_format opt))]" "m' = m"
    "res = Inl (RuntimeError (Unsupported_format (infer_format opt)))"
    by (simp_all add: main_def)
  with False show ?thesis by (rule that(1))
next
  case fmt: True
  then have ok: "\<not> (case infer_format opt of None \<Rightarrow> True | Some f \<Rightarrow> f \<notin> set SUPPORTED_FORMAT)"
    by (simp add: SUPPORTED_FORMAT_def)
  show ?thesis
  proof (cases "resolve env opt")
    case (Inl x)
    obtain evsr e where x: "x = (evsr, e)" by (cases x)
    with run Inl ok fmt have "evs = evsr" "res = Inl e" "m' = m"
      by (simp_all add: main_def)
    with fmt Inl x show ?thesis using that(2) by simp
  next
    case (Inr y)
    obtain top_rev tp tg gitdirs where y: "y = (top_rev, tp, tg, gitdirs)" by (cases y)
    obtain items r where
      wk: "recursively_iter_repos n env gitdirs tp (PyStr tg) top_rev (opt_depth opt) = (items, r)"
      by (cases "recursively_iter_repos n env gitdirs tp (PyStr tg) top_rev (opt_depth opt)")
    from run Inr y wk ok fmt obtain evs1 rr m1 where
      an: "archive_nodes w opt ''tar'' (tp @ ''/'') items 0 (ParallelJobs (opt_nproc opt)) m
             = Some (evs1, rr, m1)"
      by (cases "archive_nodes w opt ''tar'' (tp @ ''/'') items 0 (ParallelJobs (opt_nproc opt)) m")
         (auto simp: main_def)
    show ?thesis
    proof (cases rr)
      case (Inl e)
      with run Inr y wk ok fmt an have "evs = evs1" "res = Inl e" "m' = m1"
        by (simp_all add: main_def)
      with fmt Inr y wk an Inl show ?thesis using that(3) by simp
    next
      case rr: (Inr x)
      obtain nt jobs where x: "x = (nt, jobs)" by (cases x)
      show ?thesis
      proof (cases r)
        case Out_of_fuel
        with run Inr y wk ok fmt an rr x show ?thesis by (simp add: main_def)
      next
        case (Raised e)
        with run Inr y wk ok fmt an rr x have "evs = evs1" "res = Inl e" "m' = m1"
          by (simp_all add: main_def)
        with fmt Inr y wk an rr Raised show ?thesis using that(4) by simp
      next
        case Finished
        show ?thesis
        proof (cases "opt_dryrun opt")
          case True
          with run Inr y wk ok fmt an rr x Finished have
            "evs = evs1 @ [Info Dry_run_done]" "res = Inr 0" "m' = m1"
            by (simp_all add: main_def)
          with fmt Inr y wk an rr Finished True show ?thesis using that(5) by simp
        next
          case False
          show ?thesis
          proof (cases "final_unlink w (opt_output opt) (files m1)")
            case (Inl e)
            with run Inr y wk ok fmt an rr x Finished False have
              "evs = evs1 @ [Unlink (opt_output opt)]" "res = Inl e" "m' = m1"
              by (simp_all add: main_def final_unlink_def)
            with fmt Inr y wk an rr Finished False Inl show ?thesis using that(6) by simp
          next
            case fs: (Inr fs)
            from run Inr y wk ok fmt an rr x Finished False fs obtain evs2 r2 where
              asm: "assemble w ''tar'' (opt_output opt) 0 nt jobs (m1\<lparr>files := fs\<rparr>) = Some (evs2, r2, m')"
              and "evs = evs1 @ [Unlink (opt_output opt)] @ evs2
                          @ (case r2 of Inl e \<Rightarrow> [] | Inr u \<Rightarrow> [Info Done_msg])"
              and "res = (case r2 of Inl e \<Rightarrow> Inl e | Inr u \<Rightarrow> Inr 0)"
              by (cases "assemble w ''tar'' (opt_output opt) 0 nt jobs (m1\<lparr>files := fs\<rparr>)")
                 (auto simp: main_def final_unlink_def split: sum.splits)
            with fmt Inr y wk an rr x Finished False fs show ?thesis using that(7) by simp
          qed
        qed
      qed
    qed
  qed
qed

lemma walk_print_plain: "is_walk_print e \<Longrightarrow> \<not> is_effect e \<and> \<not> is_assembly e \<and> \<not> is_launch e"
  by (induction e rule: is_walk_print.induct) simp_all

lemma iter_current_submodules_gitdirs_prints:
  "iter_current_submodules_gitdirs env pwd = Inl (evs, e) \<Longrightarrow> \<forall>x \<in> set evs. is_walk_print x"
  by (auto simp: iter_current_submodules_gitdirs_def split: sum.splits dest: git_stdout_prints)

lemma resolve_prints:
  assumes "resolve env opt = Inl (evs, e)"
  shows "\<forall>x \<in> set evs. is_walk_print x"
proof (cases "git_stdout env None None
                [''rev-parse'', (case opt_tree_ish opt of None \<Rightarrow> ''HEAD'' | Some r \<Rightarrow> r)]")
  case (Inl x)
  with assms have "x = (evs, e)" by (simp add: resolve_def)
  with Inl show ?thesis by (auto dest: git_stdout_prints)
next
  case o1: (Inr out1)
  show ?thesis
  proof (cases "git_stdout env None None [''rev-parse'', ''--show-toplevel'']")
    case (Inl x)
    with assms o1 have "x = (evs, e)" by (simp add: resolve_def)
    with Inl show ?thesis by (auto dest: git_stdout_prints)
  next
    case o2: (Inr out2)
    show ?thesis
    proof (cases "git_stdout env None None [''rev-parse'', ''--absolute-git-dir'']")
      case (Inl x)
      with assms o1 o2 have "x = (evs, e)" by (simp add: resolve_def)
      with Inl show ?thesis by (auto dest: git_stdout_prints)
    next
      case o3: (Inr out3)
      show ?thesis
      proof (cases "iter_current_submodules_gitdirs env (PyStr (strip out2))")
        case (Inl x)
        with assms o1 o2 o3 have "x = (evs, e)" by (simp add: resolve_def)
        with Inl show ?thesis by (auto dest: iter_current_submodules_gitdirs_prints)
      next
        case (Inr pairs)
        with assms o1 o2 o3 have "evs = []"
          by (auto simp: resolve_def split: sum.splits)
        then show ?thesis by simp
      qed
    qed
  qed
qed

lemma dropWhile_none:
  "\<forall>e \<in> set xs. \<not> P e \<Longrightarrow> dropWhile (\<lambda>e. \<not> P e) (xs @ ys) = dropWhile (\<lambda>e. \<not> P e) ys"
  by (induction xs) auto

lemma dropWhile_all: "\<forall>e \<in> set xs. \<not> P e \<Longrightarrow> dropWhile (\<lambda>e. \<not> P e) xs = []"
  by (induction xs) auto

lemma popen_cmds_append: "popen_cmds (xs @ ys) = popen_cmds xs @ popen_cmds ys"
  by (induction xs rule: popen_cmds.induct) auto

lemma popen_cmds_no_launch: "\<forall>e \<in> set xs. \<not> is_launch e \<Longrightarrow> popen_cmds xs = []"
  by (induction xs rule: popen_cmds.induct) auto

lemma walk_items_prints:
  "recursively_iter_repos n env gitdirs tp g r d = (items, oc) \<Longrightarrow>
   \<forall>e \<in> set (outs items). is_walk_print e"
  using walk_prints [of n env gitdirs tp g r d] by simp

lemma walk_items_under:
  "recursively_iter_repos n env gitdirs tp g r d = (items, oc) \<Longrightarrow>
   \<forall>nd \<in> set (yields items). startswith (fst nd @ ''/'') (tp @ ''/'')"
  using walk_under [of n env gitdirs tp g r d] by (simp add: under_def)

text \<open>
  C10. In a run that is not a dry run, nothing is launched after the first event of
  the assembly (removing the final file, waiting and concatenating); when the
  assembly has begun, the walk had ended normally and the commands started are
  those of all its nodes, in order; and when the run ends before the assembly (so
  also when the walk fails), the final output file is as it was.
\<close>

theorem launches_precede_assembly:
  assumes real: "\<not> opt_dryrun opt" and run: "main n env w opt m = Some (evs, res, m')"
  shows "(\<forall>e \<in> set (dropWhile (\<lambda>e. \<not> is_assembly e) evs). \<not> is_launch e)
       \<and> ((\<exists>e \<in> set evs. is_assembly e) \<longrightarrow>
            (\<exists>top_rev tp tg gitdirs items.
               resolve env opt = Inr (top_rev, tp, tg, gitdirs)
               \<and> recursively_iter_repos n env gitdirs tp (PyStr tg) top_rev (opt_depth opt)
                   = (items, Finished)
               \<and> popen_cmds evs =
                   map (\<lambda>(k, nd). archive_cmd opt ''tar'' (tp @ ''/'') k nd)
                     (enumerate 0 (yields items))))
       \<and> ((\<forall>e \<in> set evs. \<not> is_assembly e) \<longrightarrow> files m' (opt_output opt) = files m (opt_output opt))"
  using run
proof (cases rule: main_Some_cases)
  case format
  then show ?thesis by simp
next
  case (resolve e)
  from resolve_prints [OF resolve(2)] have "\<forall>e \<in> set evs. \<not> is_assembly e"
    by (auto dest: walk_print_plain)
  with resolve(4) show ?thesis by (simp add: dropWhile_all)
next
  case (body top_rev tp tg gitdirs items r e)
  from archive_nodes_real [OF real walk_items_prints [OF body(3)] body(4)]
  have "\<forall>e \<in> set evs. \<not> is_assembly e" "files m' (opt_output opt) = files m (opt_output opt)"
    by simp_all
  then show ?thesis by (simp add: dropWhile_all)
next
  case (walk top_rev tp tg gitdirs items e x)
  from archive_nodes_real [OF real walk_items_prints [OF walk(3)] walk(4)]
  have "\<forall>e \<in> set evs. \<not> is_assembly e" "files m' (opt_output opt) = files m (opt_output opt)"
    by simp_all
  then show ?thesis by (simp add: dropWhile_all)
next
  case (dry top_rev tp tg gitdirs items evs1 x)
  with real show ?thesis by simp
next
  case (unlink top_rev tp tg gitdirs items evs1 x e)
  from archive_nodes_real [OF real walk_items_prints [OF unlink(3)] unlink(4)]
  have na: "\<forall>e \<in> set evs1. \<not> is_assembly e" and
    pc: "popen_cmds evs1 = map (\<lambda>(k, nd). archive_cmd opt ''tar'' (tp @ ''/'') k nd)
                             (enumerate 0 (yields items))"
    by simp_all
  from na unlink(7) have a: "dropWhile (\<lambda>e. \<not> is_assembly e) evs = [Unlink (opt_output opt)]"
    by (simp add: dropWhile_none)
  from pc unlink(7) have "popen_cmds evs = map (\<lambda>(k, nd). archive_cmd opt ''tar'' (tp @ ''/'') k nd)
                             (enumerate 0 (yields items))"
    by (simp add: popen_cmds_append)
  with unlink(2,3) have b: "\<exists>top_rev tp tg gitdirs items.
               resolve env opt = Inr (top_rev, tp, tg, gitdirs)
               \<and> recursively_iter_repos n env gitdirs tp (PyStr tg) top_rev (opt_depth opt)
                   = (items, Finished)
               \<and> popen_cmds evs =
                   map (\<lambda>(k, nd). archive_cmd opt ''tar'' (tp @ ''/'') k nd)
                     (enumerate 0 (yields items))"
    by (intro exI conjI)
  from unlink(7) have c: "\<exists>e \<in> set evs. is_assembly e" by auto
  from a b c show ?thesis by auto
next
  case (assemble top_rev tp tg gitdirs items evs1 nt jobs m1 fs evs2 r2)
  from archive_nodes_real [OF real walk_items_prints [OF assemble(3)] assemble(4)]
  have na: "\<forall>e \<in> set evs1. \<not> is_assembly e" and
    pc: "popen_cmds evs1 = map (\<lambda>(k, nd). archive_cmd opt ''tar'' (tp @ ''/'') k nd)
                             (enumerate 0 (yields items))"
    by simp_all
  let ?tail = "evs2 @ (case r2 of Inl e \<Rightarrow> [] | Inr u \<Rightarrow> [Info Done_msg])"
  from assemble_no_launch [OF assemble(7)] have nl: "\<forall>e \<in> set ?tail. \<not> is_launch e"
    by (auto split: sum.splits)
  from na assemble(8) have
    a: "dropWhile (\<lambda>e. \<not> is_assembly e) evs = Unlink (opt_output opt) # ?tail"
    by (simp add: dropWhile_none)
  from nl have "popen_cmds ?tail = []" by (rule popen_cmds_no_launch)
  with pc assemble(8) have "popen_cmds evs = map (\<lambda>(k, nd). archive_cmd opt ''tar'' (tp @ ''/'') k nd)
                             (enumerate 0 (yields items))"
    by (simp add: popen_cmds_append)
  with assemble(2,3) have b: "\<exists>top_rev tp tg gitdirs items.
               resolve env opt = Inr (top_rev, tp, tg, gitdirs)
               \<and> recursively_iter_repos n env gitdirs tp (PyStr tg) top_rev (opt_depth opt)
                   = (items, Finished)
               \<and> popen_cmds evs =
                   map (\<lambda>(k, nd). archive_cmd opt ''tar'' (tp @ ''/'') k nd)
                     (enumerate 0 (yields items))"
    by (intro exI conjI)
  from assemble(8) have c: "\<exists>e \<in> set evs. is_assembly e" by auto
  from a nl have "\<forall>e \<in> set (dropWhile (\<lambda>e. \<not> is_assembly e) evs). \<not> is_launch e" by simp
  with b c show ?thesis by auto
qed

theorem launches_precede_assembly_witness:
  "\<exists>evs res m'.
     main 3 example_env example_world example_options machine0 = Some (evs, res, m')
     \<and> \<not> opt_dryrun example_options
     \<and> list_all (\<lambda>e. \<not> is_launch e) (dropWhile (\<lambda>e. \<not> is_assembly e) evs)
     \<and> list_ex is_assembly evs
     \<and> popen_cmds evs =
         [[''git'', ''--git-dir'', ''/top/.git'', ''archive'', ''--format'', ''tar'',
           ''--output'', ''out.tar.0'', ''r0'', ''--prefix'', ''p/''],
          [''git'', ''--git-dir'', ''/top/.git/modules/foo'', ''archive'', ''--format'', ''tar'',
           ''--output'', ''out.tar.1'', ''r1'', ''--prefix'', ''p/libs/foo/''],
          [''git'', ''--git-dir'', ''/top/.git/modules/foo/modules/dep'', ''archive'', ''--format'',
           ''tar'', ''--output'', ''out.tar.2'', ''r3'', ''--prefix'', ''p/libs/foo/dep/''],
          [''git'', ''--git-dir'', ''/old/bar.git'', ''archive'', ''--format'', ''tar'',
           ''--output'', ''out.tar.3'', ''r2'', ''--prefix'', ''p/old/bar/'']]"
proof -
  have real: "\<not> opt_dryrun example_options" by (simp add: example_options_def)
  have "map_option (\<lambda>(evs, res, m'). (list_ex is_assembly evs, popen_cmds evs))
          (main 3 example_env example_world example_options machine0) =
        Some (True,
         [[''git'', ''--git-dir'', ''/top/.git'', ''archive'', ''--format'', ''tar'',
           ''--output'', ''out.tar.0'', ''r0'', ''--prefix'', ''p/''],
          [''git'', ''--git-dir'', ''/top/.git/modules/foo'', ''archive'', ''--format'', ''tar'',
           ''--output'', ''out.tar.1'', ''r1'', ''--prefix'', ''p/libs/foo/''],
          [''git'', ''--git-dir'', ''/top/.git/modules/foo/modules/dep'', ''archive'', ''--format'',
           ''tar'', ''--output'', ''out.tar.2'', ''r3'', ''--prefix'', ''p/libs/foo/dep/''],
          [''git'', ''--git-dir'', ''/old/bar.git'', ''archive'', ''--format'', ''tar'',
           ''--output'', ''out.tar.3'', ''r2'', ''--prefix'', ''p/old/bar/'']])"
    by code_simp
  then obtain evs res m' where
    run: "main 3 example_env example_world example_options machine0 = Some (evs, res, m')" and
    asm: "list_ex is_assembly evs" and
    pc: "popen_cmds evs =
         [[''git'', ''--git-dir'', ''/top/.git'', ''archive'', ''--format'', ''tar'',
           ''--output'', ''out.tar.0'', ''r0'', ''--prefix'', ''p/''],
          [''git'', ''--git-dir'', ''/top/.git/modules/foo'', ''archive'', ''--format'', ''tar'',
           ''--output'', ''out.tar.1'', ''r1'', ''--prefix'', ''p/libs/foo/''],
          [''git'', ''--git-dir'', ''/top/.git/modules/foo/modules/dep'', ''archive'', ''--format'',
           ''tar'', ''--output'', ''out.tar.2'', ''r3'', ''--prefix'', ''p/libs/foo/dep/''],
          [''git'', ''--git-dir'', ''/old/bar.git'', ''archive'', ''--format'', ''tar'',
           ''--output'', ''out.tar.3'', ''r2'', ''--prefix'', ''p/old/bar/'']]"
    by (cases "main 3 example_env example_world example_options machine0") auto
  from launches_precede_assembly [OF real run]
  have "list_all (\<lambda>e. \<not> is_launch e) (dropWhile (\<lambda>e. \<not> is_assembly e) evs)"
    by (simp add: list_all_iff)
  with run real asm pc show ?thesis by (intro exI conjI)
qed

text \<open>
  C8. A dry run leaves the machine as it was (no process is started, no file is
  written or removed, the output file is not touched) and none of its events is an
  effect, however the run ends. When the format is accepted and the walk ends
  normally, the run prints one \<open>Dry-run\<close> line per node of the walk, numbered from
  \<open>1\<close> in the order of the walk, then \<open>Dry-run done.\<close>, and returns \<open>0\<close>.
\<close>

theorem dry_run_touches_nothing:
  "(opt_dryrun opt \<longrightarrow> main n env w opt m = Some (evs, res, m') \<longrightarrow>
       m' = m \<and> filter is_effect evs = [])
   \<and> (opt_dryrun opt \<longrightarrow> infer_format opt = Some ''tar'' \<longrightarrow>
        resolve env opt = Inr (top_rev, tp, tg, gitdirs) \<longrightarrow>
        recursively_iter_repos n env gitdirs tp (PyStr tg) top_rev (opt_depth opt) = (items, Finished) \<longrightarrow>
        (\<exists>lines. main n env w opt m = Some (lines @ [Info Dry_run_done], Inr 0, m)
                \<and> dry_run_lines lines =
                    map (\<lambda>(k, nd). (Suc k, archive_prefix opt (tp @ ''/'') (fst nd)))
                      (enumerate 0 (yields items))
                \<and> filter is_effect lines = [])
        \<and> exit_status (Inr 0) = 0)"
proof (intro conjI impI)
  assume dry: "opt_dryrun opt" and run: "main n env w opt m = Some (evs, res, m')"
  from run have "m' = m \<and> filter is_effect evs = []"
  proof (cases rule: main_Some_cases)
    case format
    then show ?thesis by simp
  next
    case (resolve e)
    from resolve_prints [OF resolve(2)] have "\<forall>e \<in> set evs. \<not> is_effect e"
      by (auto dest: walk_print_plain)
    with resolve(4) show ?thesis by (simp add: filter_empty_conv)
  next
    case (body top_rev tp tg gitdirs items r e)
    from archive_nodes_dry_frame [OF dry walk_items_prints [OF body(3)] body(4)]
    show ?thesis .
  next
    case (walk top_rev tp tg gitdirs items e x)
    from archive_nodes_dry_frame [OF dry walk_items_prints [OF walk(3)] walk(4)]
    show ?thesis .
  next
    case (dry top_rev tp tg gitdirs items evs1 x)
    from archive_nodes_dry_frame [OF dry(5) walk_items_prints [OF dry(3)] dry(4)] dry(6)
    show ?thesis by simp
  next
    case (unlink top_rev tp tg gitdirs items evs1 x e)
    with dry show ?thesis by simp
  next
    case (assemble top_rev tp tg gitdirs items evs1 nt jobs m1 fs evs2 r2)
    with dry show ?thesis by simp
  qed
  then show "m' = m" and "filter is_effect evs = []" by simp_all
next
  assume dry: "opt_dryrun opt" and fmt: "infer_format opt = Some ''tar''"
    and rs: "resolve env opt = Inr (top_rev, tp, tg, gitdirs)"
    and wk: "recursively_iter_repos n env gitdirs tp (PyStr tg) top_rev (opt_depth opt) = (items, Finished)"
  from archive_nodes_dry [OF dry walk_items_under [OF wk] walk_items_prints [OF wk],
         of w "''tar''" 0 "ParallelJobs (opt_nproc opt)" m]
  obtain lines where
    an: "archive_nodes w opt ''tar'' (tp @ ''/'') items 0 (ParallelJobs (opt_nproc opt)) m
           = Some (lines, Inr (0 + length (yields items), ParallelJobs (opt_nproc opt)), m)" and
    fe: "filter is_effect lines = []" and
    dl: "dry_run_lines lines =
           map (\<lambda>(k, nd). (Suc k, archive_prefix opt (tp @ ''/'') (fst nd))) (enumerate 0 (yields items))"
    by (elim exE conjE)
  from fmt have ok: "\<not> (case infer_format opt of None \<Rightarrow> True | Some f \<Rightarrow> f \<notin> set SUPPORTED_FORMAT)"
    by (simp add: SUPPORTED_FORMAT_def)
  from ok fmt rs wk an dry have
    "main n env w opt m = Some (lines @ [Info Dry_run_done], Inr 0, m)"
    by (simp add: main_def)
  with fe dl show "\<exists>lines. main n env w opt m = Some (lines @ [Info Dry_run_done], Inr 0, m)
                \<and> dry_run_lines lines =
                    map (\<lambda>(k, nd). (Suc k, archive_prefix opt (tp @ ''/'') (fst nd)))
                      (enumerate 0 (yields items))
                \<and> filter is_effect lines = []"
    by (intro exI conjI)
next
  show "exit_status (Inr 0) = 0" by simp
qed

theorem dry_run_touches_nothing_witness:
  "\<exists>lines. main 3 example_env example_world (example_options\<lparr>opt_dryrun := True\<rparr>) machine0
              = Some (lines @ [Info Dry_run_done], Inr 0, machine0)
          \<and> dry_run_lines lines =
              [(1, ''p/''), (2, ''p/libs/foo/''), (3, ''p/libs/foo/dep/''), (4, ''p/old/bar/'')]
          \<and> filter is_effect lines = []"
proof -
  let ?opt = "example_options\<lparr>opt_dryrun := True\<rparr>"
  have d: "opt_dryrun ?opt" by simp
  have f: "infer_format ?opt = Some ''tar''" by code_simp
  have r: "resolve example_env ?opt = Inr (''r0'', ''/top'', ''/top/.git'', example_gitdirs)"
    by code_simp
  have w: "recursively_iter_repos 3 example_env example_gitdirs ''/top'' (PyStr ''/top/.git'') ''r0''
             (opt_depth ?opt) = (example_items, Finished)"
    by code_simp
  have l: "map (\<lambda>(k, nd). (Suc k, archive_prefix ?opt (''/top'' @ ''/'') (fst nd)))
             (enumerate 0 (yields example_items)) =
           [(1, ''p/''), (2, ''p/libs/foo/''), (3, ''p/libs/foo/dep/''), (4, ''p/old/bar/'')]"
    by code_simp
  from dry_run_touches_nothing
         [of ?opt 3 example_env example_world machine0 _ _ _ "''r0''" "''/top''" "''/top/.git''"
             example_gitdirs example_items, THEN conjunct2, rule_format, OF d f r w]
  obtain lines where
    "main 3 example_env example_world ?opt machine0 = Some (lines @ [Info Dry_run_done], Inr 0, machine0)"
    "dry_run_lines lines =
       map (\<lambda>(k, nd). (Suc k, archive_prefix ?opt (''/top'' @ ''/'') (fst nd)))
         (enumerate 0 (yields example_items))"
    "filter is_effect lines = []"
    by (elim conjE exE)
  with l show ?thesis by (intro exI conjI) simp_all
qed

section \<open>Properties of the assembly\<close>

lemma assemble_Nil:
  "pending jobs = [] \<Longrightarrow> assemble w fmt final nd nt jobs m = Some ([], Inr (), m)"
  by (subst assemble.simps) (simp add: can_wait_def)

lemma assemble_hang:
  "pending jobs = p # rest \<Longrightarrow> proc_duration w (pid p) = None \<Longrightarrow>
   assemble w fmt final nd nt jobs m = None"
  by (subst assemble.simps) (simp add: can_wait_def wait_next_in_order_def wait_def)

lemma run_tar_fail:
  "\<not> job_ok w final fs p \<Longrightarrow> proc_returncode w (pid p) = 0 \<Longrightarrow>
   fst (run_tar w final (userdata p) fs) \<noteq> 0 \<and> snd (run_tar w final (userdata p) fs) = fs"
  by (auto simp: job_ok_def run_tar_def split: option.splits)

lemma run_tar_ok:
  "job_ok w final fs p \<Longrightarrow>
   run_tar w final (userdata p) fs = (0, fs(final \<mapsto> content fs final @ content fs (userdata p)))"
  by (auto simp: job_ok_def run_tar_def content_def split: option.splits)

lemma assemble_abort:
  assumes p: "pending jobs = p # rest" and d: "proc_duration w (pid p) = Some d"
      and bad: "\<not> job_ok w final (files m) p"
  shows "assemble w ''tar'' final nd nt jobs m =
     Some (abort_events w final nd nt (files m) p,
           Inl (RuntimeError (abort_message w final (files m) p)),
           m\<lparr>clock := max (clock m) (started p + d)\<rparr>)"
proof (cases "proc_returncode w (pid p) = 0")
  case False
  then show ?thesis
    by (subst assemble.simps)
       (simp add: can_wait_def wait_next_in_order_def wait_def p d abort_events_def abort_message_def)
next
  case True
  from run_tar_fail [OF bad True] obtain rc where
    rt: "run_tar w final (userdata p) (files m) = (rc, files m)" and rc: "rc \<noteq> 0"
    by (cases "run_tar w final (userdata p) (files m)") auto
  from True rt rc show ?thesis
    by (subst assemble.simps)
       (simp add: can_wait_def wait_next_in_order_def wait_def p d abort_events_def
                  abort_message_def tar_cmd_def)
qed

lemma unlink_after_tar:
  "job_ok w final fs p \<Longrightarrow>
   (case os_unlink w (userdata p) (fs(final \<mapsto> content fs final @ content fs (userdata p))) of
      Inl e \<Rightarrow> fs(final \<mapsto> content fs final @ content fs (userdata p)) | Inr fs3 \<Rightarrow> fs3)
     = step_files w final fs p
   \<and> (case os_unlink w (userdata p) (fs(final \<mapsto> content fs final @ content fs (userdata p))) of
        Inl e \<Rightarrow> [Warning (Cleanup_exception (userdata p))] | Inr fs3 \<Rightarrow> [])
     = (if unlink_denied w (userdata p) then [Warning (Cleanup_exception (userdata p))] else [])"
  by (auto simp: job_ok_def os_unlink_def step_files_def Let_def)

lemma assemble_ok:
  assumes p: "pending jobs = p # rest" and d: "proc_duration w (pid p) = Some d"
      and ok: "job_ok w final (files m) p"
  shows "assemble w ''tar'' final nd nt jobs m =
     (case assemble w ''tar'' final (nd + 1) nt (jobs\<lparr>pending := rest\<rparr>)
             (m\<lparr>clock := max (clock m) (started p + d),
                files := step_files w final (files m) p\<rparr>) of
        None \<Rightarrow> None
      | Some (evs, r, m') \<Rightarrow> Some (step_events w final nd nt p @ evs, r, m'))"
proof -
  from ok have rc: "proc_returncode w (pid p) = 0" by (simp add: job_ok_def)
  note tar = run_tar_ok [OF ok]
  note unl = unlink_after_tar [OF ok]
  show ?thesis
    by (subst assemble.simps)
       (simp add: can_wait_def wait_next_in_order_def wait_def p d rc tar
                  unl [THEN conjunct1] unl [THEN conjunct2] step_events_def tar_cmd_def
             del: fun_upd_apply split: option.splits)
qed

lemma step_files_frame:
  "x \<noteq> final \<Longrightarrow> x \<noteq> userdata p \<Longrightarrow> step_files w final fs p x = fs x"
  by (simp add: step_files_def Let_def)

lemma job_ok_frame:
  "fs1 (userdata q) = fs (userdata q) \<Longrightarrow> job_ok w final fs1 q = job_ok w final fs q"
  by (simp add: job_ok_def)

lemma abort_message_frame:
  "fs1 (userdata q) = fs (userdata q) \<Longrightarrow> abort_message w final fs1 q = abort_message w final fs q"
  by (simp add: abort_message_def run_tar_def split: option.splits)

lemma good_jobs_frame:
  assumes "\<forall>q \<in> set ps. fs1 (userdata q) = fs (userdata q)"
  shows "good_jobs w final fs1 ps = good_jobs w final fs ps"
  unfolding good_jobs_def
proof (rule takeWhile_cong)
  show "ps = ps" ..
next
  fix x assume "x \<in> set ps"
  with assms have "fs1 (userdata x) = fs (userdata x)" ..
  then show "job_ok w final fs1 x = job_ok w final fs x" by (rule job_ok_frame)
qed

lemma dropWhile_frame:
  assumes "\<forall>q \<in> set ps. fs1 (userdata q) = fs (userdata q)"
  shows "dropWhile (job_ok w final fs1) ps = dropWhile (job_ok w final fs) ps"
proof (rule dropWhile_cong)
  show "ps = ps" ..
next
  fix x assume "x \<in> set ps"
  with assms have "fs1 (userdata x) = fs (userdata x)" ..
  then show "job_ok w final fs1 x = job_ok w final fs x" by (rule job_ok_frame)
qed

lemma first_bad_frame:
  "\<forall>q \<in> set ps. fs1 (userdata q) = fs (userdata q) \<Longrightarrow>
   first_bad w final fs1 ps = first_bad w final fs ps"
  using dropWhile_frame [of ps fs1 fs w final] by (simp add: first_bad_def)

lemma first_bad_in: "first_bad w final fs ps = Some b \<Longrightarrow> b \<in> set ps"
proof -
  assume "first_bad w final fs ps = Some b"
  then obtain rest where "dropWhile (job_ok w final fs) ps = b # rest"
    by (auto simp: first_bad_def split: list.splits)
  then have "b \<in> set (dropWhile (job_ok w final fs) ps)" by simp
  then show ?thesis by (rule set_dropWhileD)
qed

lemma first_bad_not_ok: "first_bad w final fs ps = Some b \<Longrightarrow> \<not> job_ok w final fs b"
proof -
  assume "first_bad w final fs ps = Some b"
  then obtain rest where d: "dropWhile (job_ok w final fs) ps = b # rest"
    by (auto simp: first_bad_def split: list.splits)
  then have "b = hd (dropWhile (job_ok w final fs) ps)" "dropWhile (job_ok w final fs) ps \<noteq> []"
    by simp_all
  then show ?thesis using hd_dropWhile [of "job_ok w final fs" ps] by simp
qed

lemma first_bad_None: "first_bad w final fs ps = None \<longleftrightarrow> good_jobs w final fs ps = ps"
proof -
  have "first_bad w final fs ps = None \<longleftrightarrow> dropWhile (job_ok w final fs) ps = []"
    by (cases "dropWhile (job_ok w final fs) ps")
       (simp_all add: first_bad_def del: dropWhile_eq_Nil_conv)
  also have "\<dots> \<longleftrightarrow> (\<forall>x \<in> set ps. job_ok w final fs x)" by (rule dropWhile_eq_Nil_conv)
  also have "\<dots> \<longleftrightarrow> good_jobs w final fs ps = ps"
    unfolding good_jobs_def by (rule takeWhile_eq_all_conv [symmetric])
  finally show ?thesis .
qed

lemma good_jobs_ok: "p \<in> set (good_jobs w final fs ps) \<Longrightarrow> job_ok w final fs p"
  unfolding good_jobs_def by (rule set_takeWhileD [THEN conjunct2])

lemma good_jobs_in: "p \<in> set (good_jobs w final fs ps) \<Longrightarrow> p \<in> set ps"
  unfolding good_jobs_def by (rule set_takeWhileD [THEN conjunct1])

lemma assembly_events_frame:
  assumes "\<forall>q \<in> set ps. fs1 (userdata q) = fs (userdata q)"
  shows "assembly_events w final nd nt fs1 ps = assembly_events w final nd nt fs ps"
proof (cases "first_bad w final fs ps")
  case None
  with good_jobs_frame [OF assms, of w final] first_bad_frame [OF assms, of w final]
  show ?thesis by (simp add: assembly_events_def)
next
  case (Some b)
  with assms have "fs1 (userdata b) = fs (userdata b)" by (simp add: first_bad_in)
  then have "abort_events w final k nt fs1 b = abort_events w final k nt fs b" for k
    by (simp add: abort_events_def abort_message_frame [of fs1 b fs])
  with Some good_jobs_frame [OF assms, of w final] first_bad_frame [OF assms, of w final]
  show ?thesis by (simp add: assembly_events_def)
qed

lemma assembly_result_frame:
  assumes "\<forall>q \<in> set ps. fs1 (userdata q) = fs (userdata q)"
  shows "assembly_result w final fs1 ps = assembly_result w final fs ps"
proof (cases "first_bad w final fs ps")
  case None
  with first_bad_frame [OF assms, of w final] show ?thesis by (simp add: assembly_result_def)
next
  case (Some b)
  with assms have "fs1 (userdata b) = fs (userdata b)" by (simp add: first_bad_in)
  with Some first_bad_frame [OF assms, of w final] abort_message_frame [of fs1 b fs w final]
  show ?thesis by (simp add: assembly_result_def)
qed

lemma consumed_frame:
  "\<forall>q \<in> set ps. fs1 (userdata q) = fs (userdata q) \<Longrightarrow>
   consumed w final fs1 ps = consumed w final fs ps"
  using good_jobs_frame [of ps fs1 fs w final] first_bad_frame [of ps fs1 fs w final]
  by (simp add: consumed_def)

lemma assembly_Cons_ok:
  "job_ok w final fs p \<Longrightarrow>
   good_jobs w final fs (p # rest) = p # good_jobs w final fs rest
   \<and> first_bad w final fs (p # rest) = first_bad w final fs rest
   \<and> consumed w final fs (p # rest) = p # consumed w final fs rest
   \<and> assembly_events w final nd nt fs (p # rest)
       = step_events w final nd nt p @ assembly_events w final (Suc nd) nt fs rest
   \<and> assembly_result w final fs (p # rest) = assembly_result w final fs rest"
proof -
  assume ok: "job_ok w final fs p"
  then have g: "good_jobs w final fs (p # rest) = p # good_jobs w final fs rest"
    by (simp add: good_jobs_def)
  from ok have b: "first_bad w final fs (p # rest) = first_bad w final fs rest"
    by (simp add: first_bad_def)
  have e: "assembly_events w final nd nt fs (p # rest)
       = step_events w final nd nt p @ assembly_events w final (Suc nd) nt fs rest"
    by (cases "first_bad w final fs rest") (simp_all add: assembly_events_def g b)
  from g b e show ?thesis by (simp add: consumed_def assembly_result_def)
qed

lemma assembly_Cons_bad:
  "\<not> job_ok w final fs p \<Longrightarrow>
   good_jobs w final fs (p # rest) = []
   \<and> first_bad w final fs (p # rest) = Some p
   \<and> consumed w final fs (p # rest) = [p]
   \<and> assembly_events w final nd nt fs (p # rest) = abort_events w final nd nt fs p
   \<and> assembly_result w final fs (p # rest) = Inl (RuntimeError (abort_message w final fs p))"
proof -
  assume bad: "\<not> job_ok w final fs p"
  then have g: "good_jobs w final fs (p # rest) = []" by (simp add: good_jobs_def)
  from bad have b: "first_bad w final fs (p # rest) = Some p" by (simp add: first_bad_def)
  from g b show ?thesis by (simp add: consumed_def assembly_events_def assembly_result_def)
qed

lemma assemble_run:
  "distinct (final # map userdata ps) \<Longrightarrow> pending jobs = ps \<Longrightarrow>
   \<forall>p \<in> set (consumed w final (files m) ps). proc_duration w (pid p) \<noteq> None \<Longrightarrow>
   \<exists>t. clock m \<le> t
     \<and> assemble w ''tar'' final nd nt jobs m =
         Some (assembly_events w final nd nt (files m) ps, assembly_result w final (files m) ps,
               m\<lparr>clock := t,
                 files := foldl (step_files w final) (files m) (good_jobs w final (files m) ps)\<rparr>)"
proof (induction ps arbitrary: nd jobs m)
  case Nil
  then have "assemble w ''tar'' final nd nt jobs m = Some ([], Inr (), m)"
    by (simp add: assemble_Nil)
  then show ?case
    by (intro exI [of _ "clock m"])
       (simp add: assembly_events_def assembly_result_def good_jobs_def first_bad_def)
next
  case (Cons p rest)
  let ?fs = "files m"
  show ?case
  proof (cases "job_ok w final ?fs p")
    case False
    note bad = assembly_Cons_bad [OF False, of rest]
    from Cons.prems(3) bad obtain d where d: "proc_duration w (pid p) = Some d" by auto
    from assemble_abort [OF Cons.prems(2) d False, of nd nt] bad [of nd nt]
    show ?thesis
      by (intro exI [of _ "max (clock m) (started p + d)"]) simp
  next
    case True
    note ok = assembly_Cons_ok [OF True, of rest]
    let ?fs1 = "step_files w final ?fs p"
    from Cons.prems(3) ok obtain d where d: "proc_duration w (pid p) = Some d" by auto
    let ?m1 = "m\<lparr>clock := max (clock m) (started p + d), files := ?fs1\<rparr>"
    have same: "\<forall>q \<in> set rest. ?fs1 (userdata q) = ?fs (userdata q)"
    proof
      fix q assume "q \<in> set rest"
      then have "userdata q \<in> userdata ` set rest" by (rule imageI)
      with Cons.prems(1) have "userdata q \<noteq> final" "userdata q \<noteq> userdata p" by auto
      then show "?fs1 (userdata q) = ?fs (userdata q)" by (rule step_files_frame)
    qed
    have dist: "distinct (final # map userdata rest)" using Cons.prems(1) by simp
    have pend: "pending (jobs\<lparr>pending := rest\<rparr>) = rest" by simp
    have fin: "\<forall>q \<in> set (consumed w final (files ?m1) rest). proc_duration w (pid q) \<noteq> None"
      using Cons.prems(3) ok consumed_frame [OF same, of w final] by simp
    from Cons.IH [OF dist pend fin, of "nd + 1"] obtain t where
      ta: "clock ?m1 \<le> t \<and>
           assemble w ''tar'' final (nd + 1) nt (jobs\<lparr>pending := rest\<rparr>) ?m1 =
            Some (assembly_events w final (nd + 1) nt (files ?m1) rest,
                  assembly_result w final (files ?m1) rest,
                  ?m1\<lparr>clock := t,
                      files := foldl (step_files w final) (files ?m1)
                                 (good_jobs w final (files ?m1) rest)\<rparr>)" ..
    note t = ta [THEN conjunct1] and a = ta [THEN conjunct2]
    have e: "assembly_events w final (nd + 1) nt (files ?m1) rest
               = assembly_events w final (Suc nd) nt ?fs rest"
      using assembly_events_frame [OF same, of w final] by simp
    have r: "assembly_result w final (files ?m1) rest = assembly_result w final ?fs rest"
      using assembly_result_frame [OF same, of w final] by simp
    have g: "good_jobs w final (files ?m1) rest = good_jobs w final ?fs rest"
      using good_jobs_frame [OF same, of w final] by simp
    from t have le: "clock m \<le> t" by simp
    have "assemble w ''tar'' final nd nt jobs m =
            Some (assembly_events w final nd nt ?fs (p # rest),
                  assembly_result w final ?fs (p # rest),
                  m\<lparr>clock := t,
                    files := foldl (step_files w final) ?fs (good_jobs w final ?fs (p # rest))\<rparr>)"
      unfolding assemble_ok [OF Cons.prems(2) d True, of nd nt] a e r g
      using ok [of nd nt] by simp
    with le show ?thesis by (intro exI [of _ t]) simp
  qed
qed

lemma assemble_hangs:
  "distinct (final # map userdata ps) \<Longrightarrow> pending jobs = ps \<Longrightarrow>
   \<exists>p \<in> set (consumed w final (files m) ps). proc_duration w (pid p) = None \<Longrightarrow>
   assemble w ''tar'' final nd nt jobs m = None"
proof (induction ps arbitrary: nd jobs m)
  case Nil
  then show ?case by (simp add: consumed_def good_jobs_def first_bad_def)
next
  case (Cons p rest)
  let ?fs = "files m"
  show ?case
  proof (cases "proc_duration w (pid p)")
    case None
    with Cons.prems(2) show ?thesis by (rule assemble_hang)
  next
    case (Some d)
    show ?thesis
    proof (cases "job_ok w final ?fs p")
      case False
      from assembly_Cons_bad [OF False, of rest] Cons.prems(3) Some show ?thesis by simp
    next
      case True
      note ok = assembly_Cons_ok [OF True, of rest]
      let ?fs1 = "step_files w final ?fs p"
      let ?m1 = "m\<lparr>clock := max (clock m) (started p + d), files := ?fs1\<rparr>"
      have same: "\<forall>q \<in> set rest. ?fs1 (userdata q) = ?fs (userdata q)"
      proof
        fix q assume "q \<in> set rest"
        then have "userdata q \<in> userdata ` set rest" by (rule imageI)
        with Cons.prems(1) have "userdata q \<noteq> final" "userdata q \<noteq> userdata p" by auto
        then show "?fs1 (userdata q) = ?fs (userdata q)" by (rule step_files_frame)
      qed
      have dist: "distinct (final # map userdata rest)" using Cons.prems(1) by simp
      have pend: "pending (jobs\<lparr>pending := rest\<rparr>) = rest" by simp
      have inf: "\<exists>q \<in> set (consumed w final (files ?m1) rest). proc_duration w (pid q) = None"
        using Cons.prems(3) ok consumed_frame [OF same, of w final] Some by simp
      from Cons.IH [OF dist pend inf, of "nd + 1"]
      show ?thesis unfolding assemble_ok [OF Cons.prems(2) Some True, of nd nt] by simp
    qed
  qed
qed

lemma foldl_step_files_frame:
  "x \<noteq> final \<Longrightarrow> x \<notin> userdata ` set g \<Longrightarrow> foldl (step_files w final) fs g x = fs x"
proof (induction g arbitrary: fs)
  case Nil
  show ?case by simp
next
  case (Cons p g)
  from Cons.prems have "x \<noteq> userdata p" "x \<notin> userdata ` set g" by auto
  with Cons.IH [OF Cons.prems(1), of "step_files w final fs p"] Cons.prems(1)
  show ?case by (simp add: step_files_frame)
qed

lemma content_step_final:
  "userdata p \<noteq> final \<Longrightarrow>
   content (step_files w final fs p) final = content fs final @ content fs (userdata p)"
  by (simp add: step_files_def Let_def content_def)

lemma step_files_final:
  "userdata p \<noteq> final \<Longrightarrow>
   step_files w final fs p final = Some (content fs final @ content fs (userdata p))"
  by (simp add: step_files_def Let_def)

lemma step_files_segment:
  "userdata p \<noteq> final \<Longrightarrow>
   step_files w final fs p (userdata p)
     = (if unlink_denied w (userdata p) then fs (userdata p) else None)"
  by (simp add: step_files_def Let_def)

lemma foldl_step_files_final:
  "distinct (final # map userdata g) \<Longrightarrow>
   foldl (step_files w final) fs g final = appended fs final g"
proof (induction g arbitrary: fs)
  case Nil
  show ?case by (simp add: appended_def)
next
  case (Cons p g)
  let ?fs1 = "step_files w final fs p"
  from Cons.prems have pf: "userdata p \<noteq> final" and dist: "distinct (final # map userdata g)"
    by auto
  have same: "content ?fs1 (userdata q) = content fs (userdata q)" if "q \<in> set g" for q
  proof -
    from that have "userdata q \<in> userdata ` set g" by (rule imageI)
    with Cons.prems have "userdata q \<noteq> final" "userdata q \<noteq> userdata p" by auto
    then have "?fs1 (userdata q) = fs (userdata q)" by (rule step_files_frame)
    then show ?thesis by (simp add: content_def)
  qed
  then have m: "map (\<lambda>q. content ?fs1 (userdata q)) g = map (\<lambda>q. content fs (userdata q)) g"
    by simp
  have "foldl (step_files w final) fs (p # g) final = appended ?fs1 final g"
    using Cons.IH [OF dist, of ?fs1] by simp
  also have "\<dots> = appended fs final (p # g)"
    by (simp add: appended_def step_files_final [OF pf] content_step_final [OF pf] m)
  finally show ?case .
qed

lemma foldl_step_files_segment:
  "distinct (final # map userdata g) \<Longrightarrow> p \<in> set g \<Longrightarrow>
   foldl (step_files w final) fs g (userdata p)
     = (if unlink_denied w (userdata p) then fs (userdata p) else None)"
proof (induction g arbitrary: fs)
  case Nil
  then show ?case by simp
next
  case (Cons q g)
  let ?fs1 = "step_files w final fs q"
  from Cons.prems(1) have qf: "userdata q \<noteq> final" and dist: "distinct (final # map userdata g)"
    and qg: "userdata q \<notin> userdata ` set g"
    by auto
  show ?case
  proof (cases "p \<in> set g")
    case True
    then have "userdata p \<in> userdata ` set g" by (rule imageI)
    with Cons.prems(1) have "userdata p \<noteq> final" "userdata p \<noteq> userdata q" by auto
    then have "?fs1 (userdata p) = fs (userdata p)" by (rule step_files_frame)
    with Cons.IH [OF dist True, of ?fs1] show ?thesis by simp
  next
    case False
    with Cons.prems(2) have pq: "p = q" by simp
    have "foldl (step_files w final) ?fs1 g (userdata q) = ?fs1 (userdata q)"
      using qf qg by (rule foldl_step_files_frame)
    with pq step_files_segment [OF qf, of w fs] show ?thesis by simp
  qed
qed

lemma waited_append: "waited (a @ b) = waited a @ waited b"
  by (induction a rule: waited.induct) simp_all

lemma runs_append: "runs (a @ b) = runs a @ runs b"
  by (induction a rule: runs.induct) simp_all

lemma unlinks_append: "unlinks (a @ b) = unlinks a @ unlinks b"
  by (induction a rule: unlinks.induct) simp_all

lemma warnings_append: "warnings (a @ b) = warnings a @ warnings b"
  by (induction a rule: warnings.induct) simp_all

lemma fatals_append: "fatals (a @ b) = fatals a @ fatals b"
  by (induction a rule: fatals.induct) simp_all

lemma job_ok_returncode: "job_ok w final fs p \<Longrightarrow> proc_returncode w (pid p) = 0"
  by (simp add: job_ok_def)

lemma assembly_events_projections:
  "waited (assembly_events w final nd nt fs ps) = map pid (consumed w final fs ps)
   \<and> runs (assembly_events w final nd nt fs ps)
       = map (tar_cmd final) (filter (\<lambda>p. proc_returncode w (pid p) = 0) (consumed w final fs ps))
   \<and> unlinks (assembly_events w final nd nt fs ps) = map userdata (good_jobs w final fs ps)
   \<and> warnings (assembly_events w final nd nt fs ps)
       = map (\<lambda>p. Cleanup_exception (userdata p))
           (filter (\<lambda>p. unlink_denied w (userdata p)) (good_jobs w final fs ps))
   \<and> fatals (assembly_events w final nd nt fs ps)
       = (case first_bad w final fs ps of None \<Rightarrow> [] | Some b \<Rightarrow> [abort_message w final fs b])"
proof (induction ps arbitrary: nd)
  case Nil
  show ?case
    by (simp add: assembly_events_def consumed_def good_jobs_def first_bad_def)
next
  case (Cons p rest)
  show ?case
  proof (cases "job_ok w final fs p")
    case True
    note ok = assembly_Cons_ok [OF True, of rest nd nt]
    from Cons.IH [of "Suc nd"] job_ok_returncode [OF True] show ?thesis
      unfolding ok [THEN conjunct1] ok [THEN conjunct2, THEN conjunct1]
                ok [THEN conjunct2, THEN conjunct2, THEN conjunct1]
                ok [THEN conjunct2, THEN conjunct2, THEN conjunct2, THEN conjunct1]
      by (simp add: waited_append runs_append unlinks_append warnings_append fatals_append
                    step_events_def)
  next
    case False
    note bad = assembly_Cons_bad [OF False, of rest nd nt]
    show ?thesis
      unfolding bad [THEN conjunct1] bad [THEN conjunct2, THEN conjunct1]
                bad [THEN conjunct2, THEN conjunct2, THEN conjunct1]
                bad [THEN conjunct2, THEN conjunct2, THEN conjunct2, THEN conjunct1]
      by (simp add: abort_events_def)
  qed
qed

lemma consumed_take:
  "consumed w final fs ps = take (Suc (length (good_jobs w final fs ps))) ps"
proof (induction ps)
  case Nil
  show ?case by (simp add: consumed_def good_jobs_def first_bad_def)
next
  case (Cons p rest)
  show ?case
  proof (cases "job_ok w final fs p")
    case True
    from assembly_Cons_ok [OF True, of rest] Cons.IH show ?thesis by simp
  next
    case False
    from assembly_Cons_bad [OF False, of rest] show ?thesis by simp
  qed
qed

lemma assembly_result_Inr:
  "assembly_result w final fs ps = Inr () \<longleftrightarrow> good_jobs w final fs ps = ps"
  using first_bad_None [of w final fs ps]
  by (cases "first_bad w final fs ps") (simp_all add: assembly_result_def)

text \<open>
  C5. The loop of the assembly, for segment files that differ from each other and
  from the final file. It waits for the pending jobs in the order of their launch, up
  to and including the first job that is not good, and for no other job; it returns
  exactly when the processes of those jobs exit. For every good job, in that order,
  \<open>tar\<close> appends the segment to the final file and the segment file is removed;
  when the removal is refused the loop prints a warning, keeps the file and goes on.
  A job whose process exited with a status other than \<open>0\<close> ends the run at once
  with the fatal message \<open>git archive command failed\<close> (a \<open>RuntimeError\<close>):
  \<open>tar\<close> is not run for it, no later job is waited for, no later segment is touched,
  and the segments appended before it stay in the final file. The loop ends normally
  exactly when every job is good. In the witness the third of four jobs exited with
  status \<open>3\<close>.
\<close>

theorem assembly_in_launch_order:
  "distinct (final # map userdata (pending jobs)) \<longrightarrow>
     (assemble w ''tar'' final nd nt jobs m = None
        \<longleftrightarrow> (\<exists>p \<in> set (consumed w final (files m) (pending jobs)). proc_duration w (pid p) = None))
   \<and> consumed w final (files m) (pending jobs)
       = take (Suc (length (good_jobs w final (files m) (pending jobs)))) (pending jobs)
   \<and> (\<forall>evs r m'. assemble w ''tar'' final nd nt jobs m = Some (evs, r, m') \<longrightarrow>
        evs = assembly_events w final nd nt (files m) (pending jobs)
      \<and> r = assembly_result w final (files m) (pending jobs)
      \<and> (r = Inr () \<longleftrightarrow> good_jobs w final (files m) (pending jobs) = pending jobs)
      \<and> waited evs = map pid (consumed w final (files m) (pending jobs))
      \<and> runs evs = map (tar_cmd final)
                     (filter (\<lambda>p. proc_returncode w (pid p) = 0)
                        (consumed w final (files m) (pending jobs)))
      \<and> unlinks evs = map userdata (good_jobs w final (files m) (pending jobs))
      \<and> warnings evs = map (\<lambda>p. Cleanup_exception (userdata p))
                         (filter (\<lambda>p. unlink_denied w (userdata p))
                            (good_jobs w final (files m) (pending jobs)))
      \<and> fatals evs = (case first_bad w final (files m) (pending jobs) of
                        None \<Rightarrow> []
                      | Some b \<Rightarrow> [abort_message w final (files m) b])
      \<and> files m' final = appended (files m) final (good_jobs w final (files m) (pending jobs))
      \<and> (\<forall>p \<in> set (good_jobs w final (files m) (pending jobs)).
            files m' (userdata p)
              = (if unlink_denied w (userdata p) then files m (userdata p) else None))
      \<and> (\<forall>x. x \<noteq> final \<longrightarrow> x \<notin> userdata ` set (good_jobs w final (files m) (pending jobs)) \<longrightarrow>
            files m' x = files m x)
      \<and> launched m' = launched m)"
proof (intro impI conjI allI)
  let ?ps = "pending jobs"
  let ?g = "good_jobs w final (files m) ?ps"
  let ?c = "consumed w final (files m) ?ps"
  assume dist: "distinct (final # map userdata ?ps)"
  show hang: "assemble w ''tar'' final nd nt jobs m = None \<longleftrightarrow>
          (\<exists>p \<in> set ?c. proc_duration w (pid p) = None)"
  proof
    assume n: "assemble w ''tar'' final nd nt jobs m = None"
    show "\<exists>p \<in> set ?c. proc_duration w (pid p) = None"
    proof (rule ccontr)
      assume "\<not> (\<exists>p \<in> set ?c. proc_duration w (pid p) = None)"
      then have "\<forall>p \<in> set ?c. proc_duration w (pid p) \<noteq> None" by simp
      from assemble_run [OF dist refl this, of nd nt] n show False by simp
    qed
  next
    assume "\<exists>p \<in> set ?c. proc_duration w (pid p) = None"
    with dist refl show "assemble w ''tar'' final nd nt jobs m = None" by (rule assemble_hangs)
  qed
  show "?c = take (Suc (length ?g)) ?ps" by (rule consumed_take)
  fix evs r m'
  assume a: "assemble w ''tar'' final nd nt jobs m = Some (evs, r, m')"
  with hang have "\<forall>p \<in> set ?c. proc_duration w (pid p) \<noteq> None" by simp
  from assemble_run [OF dist refl this, of nd nt] obtain t where
    ta: "clock m \<le> t \<and>
         assemble w ''tar'' final nd nt jobs m =
           Some (assembly_events w final nd nt (files m) ?ps,
                 assembly_result w final (files m) ?ps,
                 m\<lparr>clock := t, files := foldl (step_files w final) (files m) ?g\<rparr>)" ..
  from ta [THEN conjunct2] a have
    eq: "(evs, r, m') = (assembly_events w final nd nt (files m) ?ps,
                        assembly_result w final (files m) ?ps,
                        m\<lparr>clock := t, files := foldl (step_files w final) (files m) ?g\<rparr>)"
    by (simp only: option.inject)
  from eq have evs: "evs = assembly_events w final nd nt (files m) ?ps"
    by (simp only: prod.inject)
  from eq have r: "r = assembly_result w final (files m) ?ps"
    by (simp only: prod.inject)
  from eq have m': "m' = m\<lparr>clock := t, files := foldl (step_files w final) (files m) ?g\<rparr>"
    by (simp only: prod.inject)
  note pr = assembly_events_projections [of w final nd nt "files m" ?ps]
  have sub: "set ?g \<subseteq> set ?ps" by (auto dest: good_jobs_in)
  have pre: "?g = take (length ?g) ?ps"
    unfolding good_jobs_def by (rule takeWhile_eq_take)
  have "distinct (map userdata (take (length ?g) ?ps))"
    using dist by (simp add: take_map [symmetric] distinct_take)
  with pre have dg1: "distinct (map userdata ?g)" by simp
  from dist sub have "final \<notin> userdata ` set ?g" by auto
  with dg1 have dg: "distinct (final # map userdata ?g)" by simp
  show "evs = assembly_events w final nd nt (files m) ?ps" by (rule evs)
  show "r = assembly_result w final (files m) ?ps" by (rule r)
  show "r = Inr () \<longleftrightarrow> ?g = ?ps" unfolding r by (rule assembly_result_Inr)
  show "waited evs = map pid ?c" unfolding evs by (rule pr [THEN conjunct1])
  show "runs evs = map (tar_cmd final) (filter (\<lambda>p. proc_returncode w (pid p) = 0) ?c)"
    unfolding evs by (rule pr [THEN conjunct2, THEN conjunct1])
  show "unlinks evs = map userdata ?g"
    unfolding evs by (rule pr [THEN conjunct2, THEN conjunct2, THEN conjunct1])
  show "warnings evs = map (\<lambda>p. Cleanup_exception (userdata p))
                         (filter (\<lambda>p. unlink_denied w (userdata p)) ?g)"
    unfolding evs by (rule pr [THEN conjunct2, THEN conjunct2, THEN conjunct2, THEN conjunct1])
  show "fatals evs = (case first_bad w final (files m) ?ps of
                        None \<Rightarrow> []
                      | Some b \<Rightarrow> [abort_message w final (files m) b])"
    unfolding evs by (rule pr [THEN conjunct2, THEN conjunct2, THEN conjunct2, THEN conjunct2])
  show "files m' final = appended (files m) final ?g"
    unfolding m' using foldl_step_files_final [OF dg, of w "files m"] by simp
  show "\<forall>p \<in> set ?g. files m' (userdata p)
              = (if unlink_denied w (userdata p) then files m (userdata p) else None)"
    unfolding m' using foldl_step_files_segment [OF dg, of _ w "files m"] by simp
  show "launched m' = launched m" unfolding m' by simp
  fix x
  assume "x \<noteq> final" "x \<notin> userdata ` set ?g"
  then show "files m' x = files m x"
    unfolding m' by (simp add: foldl_step_files_frame)
qed

theorem assembly_in_launch_order_witness:
  "distinct (''out.tar'' # map userdata (pending assembly_jobs))
   \<and> (\<exists>evs r m'.
         assemble assembly_world ''tar'' ''out.tar'' 0 4 assembly_jobs assembly_machine
           = Some (evs, r, m')
       \<and> waited evs = [0, 1, 2]
       \<and> runs evs = [[''tar'', ''--concatenate'', ''-f'', ''out.tar'', ''out.tar.0''],
                     [''tar'', ''--concatenate'', ''-f'', ''out.tar'', ''out.tar.1'']]
       \<and> unlinks evs = [''out.tar.0'', ''out.tar.1'']
       \<and> warnings evs = [Cleanup_exception ''out.tar.1'']
       \<and> fatals evs = [Archive_failed 3 [''git'', ''archive'', ''r2'']]
       \<and> r = Inl (RuntimeError (Archive_failed 3 [''git'', ''archive'', ''r2'']))
       \<and> files m' ''out.tar''
           = Some [Archive_of ''/top/.git'' ''r0'' ''p/'', Archive_of ''/a.git'' ''r1'' ''p/a/'']
       \<and> files m' ''out.tar.0'' = None
       \<and> files m' ''out.tar.1'' = Some [Archive_of ''/a.git'' ''r1'' ''p/a/'']
       \<and> files m' ''out.tar.3'' = Some [Archive_of ''/c.git'' ''r3'' ''p/c/''])
   \<and> assemble (assembly_world\<lparr>proc_duration := \<lambda>k. if k = 1 then None else Some 1\<rparr>)
         ''tar'' ''out.tar'' 0 4 assembly_jobs assembly_machine = None"
proof -
  let ?p0 = "\<lparr>pid = 0, args = [''git'', ''archive'', ''r0''], userdata = ''out.tar.0'', started = 0\<rparr>"
  let ?p1 = "\<lparr>pid = 1, args = [''git'', ''archive'', ''r1''], userdata = ''out.tar.1'', started = 0\<rparr>"
  let ?p2 = "\<lparr>pid = 2, args = [''git'', ''archive'', ''r2''], userdata = ''out.tar.2'', started = 0\<rparr>"
  let ?w = assembly_world
  let ?w' = "assembly_world\<lparr>proc_duration := \<lambda>k. if k = 1 then None else Some 1\<rparr>"
  let ?fs = "files assembly_machine"
  let ?ps = "pending assembly_jobs"
  have d: "distinct (''out.tar'' # map userdata ?ps)"
    by (simp add: assembly_jobs_def)
  have g: "good_jobs ?w ''out.tar'' ?fs ?ps = [?p0, ?p1]"
    by (simp add: good_jobs_def job_ok_def assembly_jobs_def assembly_world_def
                  assembly_machine_def)
  have b: "first_bad ?w ''out.tar'' ?fs ?ps = Some ?p2"
    by (simp add: first_bad_def job_ok_def assembly_jobs_def assembly_world_def
                  assembly_machine_def)
  have c: "consumed ?w ''out.tar'' ?fs ?ps = [?p0, ?p1, ?p2]"
    by (simp add: consumed_def g b)
  have c': "consumed ?w' ''out.tar'' ?fs ?ps = [?p0, ?p1, ?p2]"
    by (simp add: consumed_def good_jobs_def first_bad_def job_ok_def assembly_jobs_def
                  assembly_world_def assembly_machine_def)
  have am: "abort_message ?w ''out.tar'' ?fs ?p2 = Archive_failed 3 [''git'', ''archive'', ''r2'']"
    by (simp add: abort_message_def assembly_world_def)
  have ap: "appended ?fs ''out.tar'' [?p0, ?p1]
              = Some [Archive_of ''/top/.git'' ''r0'' ''p/'', Archive_of ''/a.git'' ''r1'' ''p/a/'']"
    by (simp add: appended_def content_def assembly_machine_def)
  note T = mp [OF assembly_in_launch_order
                    [of "''out.tar''" assembly_jobs ?w 0 4 assembly_machine] d]
  note T' = mp [OF assembly_in_launch_order
                     [of "''out.tar''" assembly_jobs ?w' 0 4 assembly_machine] d]
  from T' [THEN conjunct1] c' have hang:
    "assemble ?w' ''tar'' ''out.tar'' 0 4 assembly_jobs assembly_machine = None"
    by simp
  from T [THEN conjunct1] c have
    "assemble ?w ''tar'' ''out.tar'' 0 4 assembly_jobs assembly_machine \<noteq> None"
    by (simp add: assembly_world_def)
  then obtain x where
    "assemble ?w ''tar'' ''out.tar'' 0 4 assembly_jobs assembly_machine = Some x"
    by (cases "assemble ?w ''tar'' ''out.tar'' 0 4 assembly_jobs assembly_machine") simp_all
  moreover obtain evs r m' where "x = (evs, r, m')" by (cases x)
  ultimately have a:
    "assemble ?w ''tar'' ''out.tar'' 0 4 assembly_jobs assembly_machine = Some (evs, r, m')"
    by simp
  note P = T [THEN conjunct2, THEN conjunct2, rule_format, OF a, unfolded g b c]
  note P2 = P [THEN conjunct2]
  note P4 = P2 [THEN conjunct2, THEN conjunct2]
  note P5 = P4 [THEN conjunct2]
  note P6 = P5 [THEN conjunct2]
  note P7 = P6 [THEN conjunct2]
  note P8 = P7 [THEN conjunct2]
  note P9 = P8 [THEN conjunct2]
  note P10 = P9 [THEN conjunct2]
  note P11 = P10 [THEN conjunct2]
  note Pr = P2 [THEN conjunct1] and Pw = P4 [THEN conjunct1] and Pt = P5 [THEN conjunct1]
    and Pu = P6 [THEN conjunct1] and Pc = P7 [THEN conjunct1] and Pf = P8 [THEN conjunct1]
    and Pa = P9 [THEN conjunct1] and Ps = P10 [THEN conjunct1] and Px = P11 [THEN conjunct1]
  have 1: "waited evs = [0, 1, 2]"
    using Pw by simp
  have 2: "runs evs = [[''tar'', ''--concatenate'', ''-f'', ''out.tar'', ''out.tar.0''],
                     [''tar'', ''--concatenate'', ''-f'', ''out.tar'', ''out.tar.1'']]"
    using Pt by (simp add: tar_cmd_def assembly_world_def)
  have 3: "unlinks evs = [''out.tar.0'', ''out.tar.1'']"
    using Pu by simp
  have 4: "warnings evs = [Cleanup_exception ''out.tar.1'']"
    using Pc by (simp add: assembly_world_def)
  have 5: "fatals evs = [Archive_failed 3 [''git'', ''archive'', ''r2'']]"
    using Pf am by simp
  have 6: "r = Inl (RuntimeError (Archive_failed 3 [''git'', ''archive'', ''r2'']))"
    using Pr am b by (simp add: assembly_result_def)
  have 7: "files m' ''out.tar''
           = Some [Archive_of ''/top/.git'' ''r0'' ''p/'', Archive_of ''/a.git'' ''r1'' ''p/a/'']"
    using Pa ap by simp
  have 8: "files m' ''out.tar.0'' = None"
    using Ps by (simp add: assembly_world_def)
  have 9: "files m' ''out.tar.1'' = Some [Archive_of ''/a.git'' ''r1'' ''p/a/'']"
    using Ps by (simp add: assembly_world_def assembly_machine_def)
  have 10: "files m' ''out.tar.3'' = Some [Archive_of ''/c.git'' ''r3'' ''p/c/'']"
    using Px [rule_format, of "''out.tar.3''"] by (simp add: assembly_machine_def)
  from a 1 2 3 4 5 6 7 8 9 10 have
    "\<exists>evs r m'.
         assemble assembly_world ''tar'' ''out.tar'' 0 4 assembly_jobs assembly_machine
           = Some (evs, r, m')
       \<and> waited evs = [0, 1, 2]
       \<and> runs evs = [[''tar'', ''--concatenate'', ''-f'', ''out.tar'', ''out.tar.0''],
                     [''tar'', ''--concatenate'', ''-f'', ''out.tar'', ''out.tar.1'']]
       \<and> unlinks evs = [''out.tar.0'', ''out.tar.1'']
       \<and> warnings evs = [Cleanup_exception ''out.tar.1'']
       \<and> fatals evs = [Archive_failed 3 [''git'', ''archive'', ''r2'']]
       \<and> r = Inl (RuntimeError (Archive_failed 3 [''git'', ''archive'', ''r2'']))
       \<and> files m' ''out.tar''
           = Some [Archive_of ''/top/.git'' ''r0'' ''p/'', Archive_of ''/a.git'' ''r1'' ''p/a/'']
       \<and> files m' ''out.tar.0'' = None
       \<and> files m' ''out.tar.1'' = Some [Archive_of ''/a.git'' ''r1'' ''p/a/'']
       \<and> files m' ''out.tar.3'' = Some [Archive_of ''/c.git'' ''r3'' ''p/c/'']"
    by (intro exI [of _ evs] exI [of _ r] exI [of _ m'] conjI)
  with d hang show ?thesis by (intro conjI)
qed

end
